theory Spec2Isabelle
  imports Main "HOL-Library.Word" "HOL-Library.Multiset" "HOL-Library.AList"
    "HOL-Library.Signed_Division"
begin

unbundle bit_operations_syntax

section \<open>Package bsw: the result type and its ordering\<close>

text \<open>
  \<^verbatim>\<open>type Result struct { Source, IP, Hostname string }\<close> and
  \<^verbatim>\<open>type Results []Result\<close>. Go strings are byte sequences, as HOL strings are.
\<close>

record Result =
  Source :: string
  IP :: string
  Hostname :: string

type_synonym Results = "Result list"

text \<open>
  \<^verbatim>\<open>net.ParseIP(s).To4()\<close> belongs to Go's standard library, not to this repository.
  It yields either nil or a slice of four bytes; the development takes it as a parameter
  \<open>to4\<close>, so that every statement below holds for whatever strings the library accepts
  (dotted quads, and IPv4-mapped IPv6 literals as well).
\<close>

type_synonym ip4 = "8 word \<times> 8 word \<times> 8 word \<times> 8 word"
type_synonym ip_parser = "string \<Rightarrow> ip4 option"

text \<open>\<^verbatim>\<open>binary.BigEndian.Uint32\<close>: the first byte is the most significant one.\<close>

fun BigEndian_Uint32 :: "ip4 \<Rightarrow> 32 word" where
  "BigEndian_Uint32 (b0, b1, b2, b3) =
     push_bit 24 (ucast b0) OR push_bit 16 (ucast b1) OR push_bit 8 (ucast b2) OR ucast b3"

text \<open>The body of \<^verbatim>\<open>Results.Less\<close> once \<^verbatim>\<open>r[i]\<close> and \<^verbatim>\<open>r[j]\<close> have been read.\<close>

definition less_entries :: "ip_parser \<Rightarrow> Result \<Rightarrow> Result \<Rightarrow> bool" where
  "less_entries to4 x y =
     (let first = to4 (IP x); second = to4 (IP y) in
      case first of
        None \<Rightarrow> True
      | Some f \<Rightarrow>
          (case second of
             None \<Rightarrow> False
           | Some s \<Rightarrow> BigEndian_Uint32 f < BigEndian_Uint32 s))"

datatype panic = IndexOutOfRange

text \<open>
  \<^verbatim>\<open>func (r Results) Less(i, j int) bool\<close>. Both elements are read before anything is
  compared, so an index outside the slice panics whatever the other element is.
\<close>

definition Less :: "ip_parser \<Rightarrow> Results \<Rightarrow> int \<Rightarrow> int \<Rightarrow> panic + bool" where
  "Less to4 r i j =
     (if 0 \<le> i \<and> i < int (length r) \<and> 0 \<le> j \<and> j < int (length r)
      then Inr (less_entries to4 (r ! nat i) (r ! nat j))
      else Inl IndexOutOfRange)"

definition Len :: "Results \<Rightarrow> int" where
  "Len r = int (length r)"

definition Swap :: "Results \<Rightarrow> int \<Rightarrow> int \<Rightarrow> panic + Results" where
  "Swap r i j =
     (if 0 \<le> i \<and> i < int (length r) \<and> 0 \<le> j \<and> j < int (length r)
      then Inr (r[nat i := r ! nat j, nat j := r ! nat i])
      else Inl IndexOutOfRange)"

subsection \<open>A parser for dotted quads\<close>

text \<open>
  The dotted-decimal form that \<^verbatim>\<open>net.ParseIP\<close> accepts: four decimal fields of one to
  three digits, each at most 255, separated by single dots. It instantiates \<open>to4\<close>
  wherever a statement is evaluated on concrete addresses.
\<close>

fun split_on :: "char \<Rightarrow> string \<Rightarrow> string list" where
  "split_on c [] = [[]]"
| "split_on c (x # xs) =
     (if x = c then [] # split_on c xs
      else (case split_on c xs of
              [] \<Rightarrow> [[x]]
            | w # ws \<Rightarrow> (x # w) # ws))"

definition is_digit :: "char \<Rightarrow> bool" where
  "is_digit c = (48 \<le> (of_char c :: nat) \<and> (of_char c :: nat) \<le> 57)"

definition decimal_field :: "string \<Rightarrow> 8 word option" where
  "decimal_field w =
     (if w \<noteq> [] \<and> length w \<le> 3 \<and> list_all is_digit w
      then (let n = foldl (\<lambda>acc c. 10 * acc + ((of_char c :: nat) - 48)) 0 w
            in if n \<le> 255 then Some (of_nat n) else None)
      else None)"

definition dotted_quad :: ip_parser where
  "dotted_quad s =
     (case map decimal_field (split_on CHR ''.'' s) of
        [Some a, Some b, Some c, Some d] \<Rightarrow> Some (a, b, c, d)
      | _ \<Rightarrow> None)"

subsection \<open>Sorting with the \<open>Results\<close> interface\<close>

text \<open>
  \<^verbatim>\<open>sort.Sort\<close> is library code as well. It drives the slice only through
  \<^verbatim>\<open>Len\<close>, \<^verbatim>\<open>Less\<close> and \<^verbatim>\<open>Swap\<close>; the routine below is the library's
  \<^verbatim>\<open>insertionSort(data, a, b)\<close>, the pass it runs over every short range:
  \<^verbatim>\<open>
  for i := a + 1; i < b; i++ {
      for j := i; j > a && data.Less(j, j-1); j-- {
          data.Swap(j, j-1)
      }
  }
  \<close>
  \<open>sift\<close> is the inner loop and \<open>insertion_loop\<close> the outer one. A panic of
  \<^verbatim>\<open>Less\<close> or \<^verbatim>\<open>Swap\<close> ends the sort.
\<close>

function sift :: "ip_parser \<Rightarrow> Results \<Rightarrow> int \<Rightarrow> int \<Rightarrow> panic + Results" where
  "sift to4 data a j =
     (if j > a then
        (case Less to4 data j (j - 1) of
           Inl e \<Rightarrow> Inl e
         | Inr False \<Rightarrow> Inr data
         | Inr True \<Rightarrow>
             (case Swap data j (j - 1) of
                Inl e \<Rightarrow> Inl e
              | Inr data' \<Rightarrow> sift to4 data' a (j - 1)))
      else Inr data)"
  by pat_completeness auto
termination
  by (relation "measure (\<lambda>(to4, data, a, j). nat (j - a))") auto

declare sift.simps [simp del]

function insertion_loop ::
  "ip_parser \<Rightarrow> Results \<Rightarrow> int \<Rightarrow> int \<Rightarrow> int \<Rightarrow> panic + Results" where
  "insertion_loop to4 data a b i =
     (if i < b then
        (case sift to4 data a i of
           Inl e \<Rightarrow> Inl e
         | Inr data' \<Rightarrow> insertion_loop to4 data' a b (i + 1))
      else Inr data)"
  by pat_completeness auto
termination
  by (relation "measure (\<lambda>(to4, data, a, b, i). nat (b - i))") auto

declare insertion_loop.simps [simp del]

definition insertionSort :: "ip_parser \<Rightarrow> Results \<Rightarrow> int \<Rightarrow> int \<Rightarrow> panic + Results" where
  "insertionSort to4 data a b = insertion_loop to4 data a b (a + 1)"

definition sort_Sort :: "ip_parser \<Rightarrow> Results \<Rightarrow> panic + Results" where
  "sort_Sort to4 data = insertionSort to4 data 0 (Len data)"

text \<open>
  The rank the comparator sorts by: 0 for an entry without an IPv4 address, one more
  than the 32-bit value otherwise.
\<close>

definition sort_key :: "ip_parser \<Rightarrow> Result \<Rightarrow> nat" where
  "sort_key to4 x =
     (case to4 (IP x) of None \<Rightarrow> 0 | Some f \<Rightarrow> Suc (unat (BigEndian_Uint32 f)))"

section \<open>Command blacksheepwall: configuration\<close>

text \<open>The flags of \<^verbatim>\<open>main\<close> that the pool and the gatherer read.\<close>

record Config =
  flTimeout :: "64 word"
  flConcurrency :: int
  flDebug :: bool
  flValidate :: bool
  flipv6 :: bool
  flFcrdns :: bool
  flServerAddr :: string

text \<open>\<^verbatim>\<open>flag.Int64("timeout", 600, "")\<close>: the value of the flag when it is not given.\<close>

definition default_flTimeout :: "64 word" where
  "default_flTimeout = 600"

text \<open>
  \<^verbatim>\<open>if *flTimeout != 600 { *flTimeout = *flTimeout * 1000 }\<close>, commented
  ``Modify timeout to Milliseconds for function calls''. The result is what
  \<^verbatim>\<open>bsw.TLS\<close> and \<^verbatim>\<open>bsw.Headers\<close> receive. Multiplication on \<^verbatim>\<open>int64\<close> wraps.
\<close>

definition timeout_for_calls :: "64 word \<Rightarrow> 64 word" where
  "timeout_for_calls t = (if t \<noteq> 600 then t * 1000 else t)"

section \<open>The goroutine pool\<close>

datatype error = Error string

text \<open>
  \<^verbatim>\<open>type task func() (string, bsw.Results, error)\<close>. A task reaches the network, so
  it is a function of the state \<open>'w\<close> of everything outside the process, which it may
  change: calling it twice is not calling it once.
\<close>

type_synonym 'w task = "'w \<Rightarrow> (string \<times> Results \<times> error option) \<times> 'w"

datatype written = Stderr string | Log string

definition working_backslash :: string where
  "working_backslash = CHR 0x0D # ''Working '' @ [CHR 0x5C]"

definition working_slash :: string where
  "working_slash = CHR 0x0D # ''Working /''"

text \<open>
  One turn of \<^verbatim>\<open>for def := range tasks\<close> in a pool goroutine, from the call of the
  task to the send on \<^verbatim>\<open>res\<close>. The turn yields the goroutine's counter \<open>c\<close>, what it
  wrote to standard error and to the log, the slice it sends on \<^verbatim>\<open>res\<close> (if any), and
  the outside state the task left. A line of the log is the text that \<^verbatim>\<open>log.Printf\<close>
  formats, without the time that the logger puts before it.
\<close>

definition worker_turn ::
  "Config \<Rightarrow> int \<Rightarrow> 'w task \<Rightarrow> 'w \<Rightarrow> int \<times> written list \<times> Results option \<times> 'w" where
  "worker_turn cfg c def w =
     (case def w of ((task, result, err), w') \<Rightarrow>
        let (c', progress) =
              (if flDebug cfg = False then
                 (if c smod 2 = 0 then (3, [Stderr working_backslash])
                  else (2, [Stderr working_slash]))
               else (c, []));
            failure =
              (case err of
                 Some (Error msg) \<Rightarrow> if flDebug cfg then [Log (task @ '': '' @ msg)] else []
               | None \<Rightarrow> [])
        in (case err of
              None \<Rightarrow>
                (c',
                 progress @ failure @
                   (if flDebug cfg = True \<and> length result > 0
                    then [Log (task @ '': '' @ Hostname (result ! 0) @ '' '' @ IP (result ! 0)
                                 @ '': task completed successfully'' @ [CHR 0x0A])]
                    else []),
                 Some result, w')
            | Some e \<Rightarrow> (c', progress @ failure, None, w')))"

text \<open>
  A goroutine that receives the tasks \<open>defs\<close>, in this order, before it finds the
  channel closed: everything it wrote, the slices it sent, and the outside state.
\<close>

fun worker_run ::
  "Config \<Rightarrow> int \<Rightarrow> 'w task list \<Rightarrow> 'w \<Rightarrow> written list \<times> Results list \<times> 'w" where
  "worker_run cfg c [] w = ([], [], w)"
| "worker_run cfg c (def # defs) w =
     (case worker_turn cfg c def w of (c', out, sent, w') \<Rightarrow>
        (case worker_run cfg c' defs w' of (outs, sents, w'') \<Rightarrow>
           (out @ outs, (case sent of None \<Rightarrow> [] | Some r \<Rightarrow> [r]) @ sents, w'')))"

section \<open>The gatherer\<close>

subsection \<open>Regular expressions\<close>

text \<open>
  \<^verbatim>\<open>regexp.Match\<close> is library code. The pattern is modelled by its syntax tree and
  matched with derivatives. A character class is a list of inclusive ranges.
\<close>

datatype rexp =
    Zero
  | One
  | Lit char
  | Class "(char \<times> char) list"
  | Seq rexp rexp
  | Alt rexp rexp
  | Star rexp
  | Plus rexp
  | Opt rexp

definition in_class :: "(char \<times> char) list \<Rightarrow> char \<Rightarrow> bool" where
  "in_class rs c =
     list_ex (\<lambda>(lo, hi). (of_char lo :: nat) \<le> of_char c \<and> (of_char c :: nat) \<le> of_char hi) rs"

fun nullable :: "rexp \<Rightarrow> bool" where
  "nullable Zero = False"
| "nullable One = True"
| "nullable (Lit c) = False"
| "nullable (Class rs) = False"
| "nullable (Seq r s) = (nullable r \<and> nullable s)"
| "nullable (Alt r s) = (nullable r \<or> nullable s)"
| "nullable (Star r) = True"
| "nullable (Plus r) = nullable r"
| "nullable (Opt r) = True"

fun deriv :: "char \<Rightarrow> rexp \<Rightarrow> rexp" where
  "deriv c Zero = Zero"
| "deriv c One = Zero"
| "deriv c (Lit d) = (if c = d then One else Zero)"
| "deriv c (Class rs) = (if in_class rs c then One else Zero)"
| "deriv c (Seq r s) =
     (if nullable r then Alt (Seq (deriv c r) s) (deriv c s) else Seq (deriv c r) s)"
| "deriv c (Alt r s) = Alt (deriv c r) (deriv c s)"
| "deriv c (Star r) = Seq (deriv c r) (Star r)"
| "deriv c (Plus r) = Seq (deriv c r) (Star r)"
| "deriv c (Opt r) = deriv c r"

text \<open>Whether the whole of \<open>s\<close> is a word of \<open>r\<close>.\<close>

definition matches :: "rexp \<Rightarrow> string \<Rightarrow> bool" where
  "matches r s = nullable (foldl (\<lambda>r c. deriv c r) r s)"

text \<open>
  The constant of \<^verbatim>\<open>main\<close>:
  \<^verbatim>\<open>^\.?[a-z\d]+(?:(?:[a-z\d]*)|(?:[a-z\d\-]*[a-z\d]))(?:\.[a-z\d]+(?:(?:[a-z\d]*)|(?:[a-z\d\-]*[a-z\d])))*$\<close>
  Go's \<^verbatim>\<open>\d\<close> is \<^verbatim>\<open>[0-9]\<close>. Between \<^verbatim>\<open>^\<close> and \<^verbatim>\<open>$\<close>, which without the
  multi-line flag stand for the two ends of the text, the pattern is \<open>domainReg\<close>.
\<close>

definition alnum :: rexp where
  "alnum = Class [(CHR ''a'', CHR ''z''), (CHR ''0'', CHR ''9'')]"

definition alnum_hyphen :: rexp where
  "alnum_hyphen = Class [(CHR ''a'', CHR ''z''), (CHR ''0'', CHR ''9''), (CHR ''-'', CHR ''-'')]"

definition domainReg_label :: rexp where
  "domainReg_label = Seq (Plus alnum) (Alt (Star alnum) (Seq (Star alnum_hyphen) alnum))"

definition domainReg :: rexp where
  "domainReg =
     Seq (Opt (Lit CHR ''.''))
       (Seq domainReg_label (Star (Seq (Lit CHR ''.'') domainReg_label)))"

text \<open>
  \<^verbatim>\<open>regexp.Match(pattern, b)\<close> returns whether \<open>b\<close> contains a match, and an error
  when the pattern does not compile. A pattern anchored at both ends matches inside
  \<open>b\<close> exactly when it matches all of \<open>b\<close>, and a syntax tree has compiled.
\<close>

definition regexp_Match :: "rexp \<Rightarrow> string \<Rightarrow> bool \<times> error option" where
  "regexp_Match pattern b = (matches pattern b, None)"

subsection \<open>The resolver\<close>

text \<open>
  \<^verbatim>\<open>bsw.LookupName\<close>, \<^verbatim>\<open>bsw.LookupCname\<close> and \<^verbatim>\<open>bsw.LookupName6\<close> are not among
  the sources at hand; each takes a name and the address of a DNS server and returns
  \<^verbatim>\<open>(string, error)\<close>. They are parameters of the gatherer.
\<close>

record Resolver =
  LookupName :: "string \<Rightarrow> string \<Rightarrow> string \<times> error option"
  LookupCname :: "string \<Rightarrow> string \<Rightarrow> string \<times> error option"
  LookupName6 :: "string \<Rightarrow> string \<Rightarrow> string \<times> error option"

subsection \<open>The set of results\<close>

text \<open>
  \<^verbatim>\<open>resMap := make(map[bsw.Result]bool)\<close>, a finite map kept as an association list
  with one pair for each key. \<^verbatim>\<open>resMap[k] = true\<close> is \<open>set_true\<close>.
\<close>

type_synonym ResMap = "(Result \<times> bool) list"

definition set_true :: "ResMap \<Rightarrow> Result \<Rightarrow> ResMap" where
  "set_true m k = AList.update k True m"

definition keys :: "ResMap \<Rightarrow> Result list" where
  "keys m = map fst m"

definition fcrdns_entry :: "string \<Rightarrow> string \<Rightarrow> Result" where
  "fcrdns_entry ip h = \<lparr>Source = ''fcrdns'', IP = ip, Hostname = h\<rparr>"

text \<open>The body of \<^verbatim>\<open>for _, r := range result\<close> under \<^verbatim>\<open>if *flFcrdns\<close>.\<close>

definition confirm :: "Config \<Rightarrow> Resolver \<Rightarrow> ResMap \<Rightarrow> Result \<Rightarrow> ResMap" where
  "confirm cfg dns m r =
     (let (ip, err) = LookupName dns (Hostname r) (flServerAddr cfg);
          m1 =
            (if err = None \<and> length ip > 0 then set_true m (fcrdns_entry ip (Hostname r))
             else
               (let (cfqdn, err) = LookupCname dns (Hostname r) (flServerAddr cfg) in
                if err = None \<and> length cfqdn > 0 then
                  (let (ip, err) = LookupName dns cfqdn (flServerAddr cfg) in
                   if err = None \<and> length ip > 0
                   then set_true m (fcrdns_entry ip (Hostname r))
                   else m)
                else m));
          (ip, err) = LookupName6 dns (Hostname r) (flServerAddr cfg)
      in if err = None \<and> length ip > 0 then set_true m1 (fcrdns_entry ip (Hostname r))
         else m1)"

text \<open>The body of \<^verbatim>\<open>for _, r := range result\<close> in the other branch.\<close>

definition accept :: "Config \<Rightarrow> ResMap \<Rightarrow> Result \<Rightarrow> ResMap" where
  "accept cfg m r =
     (if flValidate cfg then
        (case regexp_Match domainReg (Hostname r) of
           (ok, err) \<Rightarrow> if err \<noteq> None \<or> \<not> ok then m else set_true m r)
      else set_true m r)"

text \<open>One turn of \<^verbatim>\<open>for result := range res\<close>.\<close>

definition ingest :: "Config \<Rightarrow> Resolver \<Rightarrow> ResMap \<Rightarrow> Results \<Rightarrow> ResMap" where
  "ingest cfg dns m result =
     (if length result < 1 then m
      else if flFcrdns cfg then foldl (confirm cfg dns) m result
      else foldl (accept cfg) m result)"

text \<open>
  The gatherer from its start to the close of \<^verbatim>\<open>res\<close>, when \<open>received\<close> are the
  slices it received, in the order of their arrival.
\<close>

definition gather :: "Config \<Rightarrow> Resolver \<Rightarrow> Results list \<Rightarrow> ResMap" where
  "gather cfg dns received = foldl (ingest cfg dns) [] received"

subsection \<open>From the set to the sorted slice\<close>

text \<open>
  \<^verbatim>\<open>for k := range resMap { results = append(results, k) }\<close> visits every key once, in
  an order Go leaves open: \<open>ks\<close> is a possible outcome when it is a rearrangement of
  the keys. \<^verbatim>\<open>sort.Sort(results)\<close> follows.
\<close>

definition ranges_over :: "Result list \<Rightarrow> ResMap \<Rightarrow> bool" where
  "ranges_over ks m = (mset ks = mset (keys m))"

definition sorted_results :: "ip_parser \<Rightarrow> Result list \<Rightarrow> panic + Results" where
  "sorted_results to4 ks = sort_Sort to4 ks"

subsection \<open>The grammar of domain names\<close>

text \<open>
  The specification's words for what the pattern accepts: labels of lowercase
  alphanumerics and hyphens, separated by dots, after an optional leading dot, no label
  starting or ending with a hyphen. A label is not empty.
\<close>

definition lower_alnum :: "char \<Rightarrow> bool" where
  "lower_alnum c =
     ((of_char CHR ''a'' :: nat) \<le> of_char c \<and> (of_char c :: nat) \<le> of_char CHR ''z''
      \<or> (of_char CHR ''0'' :: nat) \<le> of_char c \<and> (of_char c :: nat) \<le> of_char CHR ''9'')"

definition grammar_label :: "string \<Rightarrow> bool" where
  "grammar_label w =
     (w \<noteq> [] \<and> list_all (\<lambda>c. lower_alnum c \<or> c = CHR ''-'') w
      \<and> hd w \<noteq> CHR ''-'' \<and> last w \<noteq> CHR ''-'')"

definition domain_grammar :: "string \<Rightarrow> bool" where
  "domain_grammar s =
     list_all grammar_label
       (split_on CHR ''.'' (case s of [] \<Rightarrow> [] | c # t \<Rightarrow> if c = CHR ''.'' then t else s))"

subsection \<open>What a pattern denotes\<close>

text \<open>
  The set of words of a regular expression, by which the derivative matcher is shown to
  decide membership.
\<close>

definition conc_lang :: "string set \<Rightarrow> string set \<Rightarrow> string set" where
  "conc_lang A B = {u @ v | u v. u \<in> A \<and> v \<in> B}"

inductive_set star_lang :: "string set \<Rightarrow> string set" for A :: "string set" where
  empty: "[] \<in> star_lang A"
| more: "u \<in> A \<Longrightarrow> v \<in> star_lang A \<Longrightarrow> u @ v \<in> star_lang A"

fun lang :: "rexp \<Rightarrow> string set" where
  "lang Zero = {}"
| "lang One = {[]}"
| "lang (Lit c) = {[c]}"
| "lang (Class rs) = {[c] | c. in_class rs c}"
| "lang (Seq r s) = conc_lang (lang r) (lang s)"
| "lang (Alt r s) = lang r \<union> lang s"
| "lang (Star r) = star_lang (lang r)"
| "lang (Plus r) = conc_lang (lang r) (star_lang (lang r))"
| "lang (Opt r) = insert [] (lang r)"

definition dot_labels :: "string set" where
  "dot_labels = conc_lang {[CHR ''.'']} {w. grammar_label w}"

subsection \<open>Corroboration of a hostname\<close>

text \<open>
  A lookup has answered when it returned no error and a string that is not empty. A
  hostname is corroborated under an address when the address came from its A record,
  from the A record of its canonical name when it has no A record of its own, or from
  its AAAA record.
\<close>

definition answered :: "string \<times> error option \<Rightarrow> bool" where
  "answered a = (snd a = None \<and> length (fst a) > 0)"

definition v4_direct :: "Config \<Rightarrow> Resolver \<Rightarrow> string \<Rightarrow> string \<Rightarrow> bool" where
  "v4_direct cfg dns h ip =
     (answered (LookupName dns h (flServerAddr cfg)) \<and> fst (LookupName dns h (flServerAddr cfg)) = ip)"

definition v4_by_cname :: "Config \<Rightarrow> Resolver \<Rightarrow> string \<Rightarrow> string \<Rightarrow> bool" where
  "v4_by_cname cfg dns h ip =
     (\<not> answered (LookupName dns h (flServerAddr cfg))
      \<and> answered (LookupCname dns h (flServerAddr cfg))
      \<and> v4_direct cfg dns (fst (LookupCname dns h (flServerAddr cfg))) ip)"

definition v6_direct :: "Config \<Rightarrow> Resolver \<Rightarrow> string \<Rightarrow> string \<Rightarrow> bool" where
  "v6_direct cfg dns h ip =
     (answered (LookupName6 dns h (flServerAddr cfg)) \<and> fst (LookupName6 dns h (flServerAddr cfg)) = ip)"

definition corroborated :: "Config \<Rightarrow> Resolver \<Rightarrow> string \<Rightarrow> string \<Rightarrow> bool" where
  "corroborated cfg dns h ip =
     (v4_direct cfg dns h ip \<or> v4_by_cname cfg dns h ip \<or> v6_direct cfg dns h ip)"

subsection \<open>Calling tasks one after the other\<close>

text \<open>
  What the tasks \<open>defs\<close> return when each of them is called exactly once, in this
  order, and the outside state they leave.
\<close>

fun outcomes :: "'w task list \<Rightarrow> 'w \<Rightarrow> (string \<times> Results \<times> error option) list \<times> 'w" where
  "outcomes [] w = ([], w)"
| "outcomes (def # defs) w =
     (case def w of (out, w') \<Rightarrow>
        (case outcomes defs w' of (outs, w'') \<Rightarrow> (out # outs, w'')))"

definition succeeded :: "string \<times> Results \<times> error option \<Rightarrow> bool" where
  "succeeded out = (snd (snd out) = None)"

definition records_of :: "string \<times> Results \<times> error option \<Rightarrow> Results" where
  "records_of out = fst (snd out)"

section \<open>Concrete runs\<close>

text \<open>Flags, resolvers, records and tasks on which the statements are evaluated.\<close>

definition ex_v6 :: Result where
  "ex_v6 = \<lparr>Source = ''dictionary IPv6'', IP = ''2001:db8::1'', Hostname = ''a.example.com''\<rparr>"
definition ex_bad :: Result where
  "ex_bad = \<lparr>Source = ''tls'', IP = ''not an address'', Hostname = ''b.example.com''\<rparr>"

definition ex_google :: Result where
  "ex_google = \<lparr>Source = ''reverse'', IP = ''8.8.8.8'', Hostname = ''dns.google''\<rparr>"

definition cfg_plain :: Config where
  "cfg_plain = \<lparr>flTimeout = default_flTimeout, flConcurrency = 100, flDebug = False,
     flValidate = False, flipv6 = False, flFcrdns = False, flServerAddr = ''8.8.8.8''\<rparr>"

definition cfg_validate :: Config where
  "cfg_validate = cfg_plain\<lparr>flValidate := True\<rparr>"

definition cfg_fcrdns :: Config where
  "cfg_fcrdns = cfg_plain\<lparr>flFcrdns := True\<rparr>"

definition cfg_debug :: Config where
  "cfg_debug = cfg_plain\<lparr>flDebug := True\<rparr>"

definition no_such_host :: "string \<Rightarrow> string \<Rightarrow> string \<times> error option" where
  "no_such_host h server = ([], Some (Error ''no such host''))"

definition dns_silent :: Resolver where
  "dns_silent = \<lparr>LookupName = no_such_host, LookupCname = no_such_host, LookupName6 = no_such_host\<rparr>"

definition dns_google :: Resolver where
  "dns_google =
     \<lparr>LookupName = (\<lambda>h server. if h = ''dns.google'' then (''8.8.8.8'', None) else no_such_host h server),
      LookupCname = no_such_host,
      LookupName6 = no_such_host\<rparr>"

definition dns_v6_only :: Resolver where
  "dns_v6_only =
     \<lparr>LookupName = no_such_host,
      LookupCname = no_such_host,
      LookupName6 = (\<lambda>h server. if h = ''dns.google'' then (''2001:4860:4860::8888'', None)
                                 else no_such_host h server)\<rparr>"

definition ex_ns :: Result where
  "ex_ns = \<lparr>Source = ''ns'', IP = ''9.9.9.9'', Hostname = ''ns1.example.com''\<rparr>"
definition ex_sub :: Result where
  "ex_sub = \<lparr>Source = ''tls'', IP = ''192.0.2.7'', Hostname = ''sub.example.com''\<rparr>"
definition ex_bad_host :: Result where
  "ex_bad_host = \<lparr>Source = ''tls'', IP = ''192.0.2.7'', Hostname = ''bad_host!''\<rparr>"
definition ex_lost :: Result where
  "ex_lost = \<lparr>Source = ''x'', IP = ''1.2.3.4'', Hostname = ''h''\<rparr>"

definition task_empty :: "nat task" where
  "task_empty w = ((''reverse'', [], None), Suc w)"
definition task_google :: "nat task" where
  "task_google w = ((''reverse'', [ex_google], None), Suc w)"
definition task_failing :: "nat task" where
  "task_failing w = ((''tls'', [], Some (Error ''i/o timeout'')), Suc w)"

section \<open>The goroutines together\<close>

text \<open>
  The goroutines of \<^verbatim>\<open>main\<close> run together: the pool, the gatherer, and the main goroutine,
  which sends the tasks, closes \<^verbatim>\<open>tasks\<close>, receives from \<^verbatim>\<open>tracker\<close> once for each
  goroutine of the pool, closes \<^verbatim>\<open>res\<close>, receives from \<^verbatim>\<open>tracker\<close> once more, and then
  reads \<^verbatim>\<open>resMap\<close>. Each goroutine is at one of its blocking statements.

  The main goroutine: it still has tasks to send (or \<^verbatim>\<open>tasks\<close> to close); it is in
  \<^verbatim>\<open>for i := 0; i < *flConcurrency; i++ { <-tracker }\<close> with counter \<open>i\<close> (or about to
  close \<^verbatim>\<open>res\<close>); it is at the last \<^verbatim>\<open><-tracker\<close>; it is about to range over
  \<^verbatim>\<open>resMap\<close>; it holds the sorted slice. The calls of \<^verbatim>\<open>log.Fatal\<close> between the sends,
  which end the process, are left out.
\<close>

datatype 'w producer_pc =
    Enqueueing "'w task list"
  | Waiting int
  | AwaitingGatherer
  | Reading
  | Finished Results

text \<open>
  A goroutine of the pool: at the receive of \<^verbatim>\<open>for def := range tasks\<close> with its counter
  \<open>c\<close>; at \<^verbatim>\<open>res <- result\<close>; at \<^verbatim>\<open>tracker <- empty{}\<close>; returned.
\<close>

datatype worker_pc = Ranging int | Sending int Results | Signalling | Exited

text \<open>
  The gatherer: at the receive of \<^verbatim>\<open>for result := range res\<close>; at
  \<^verbatim>\<open>tracker <- empty{}\<close>; returned.
\<close>

datatype gatherer_pc = Gathering | GSignalling | GExited

text \<open>
  What the program does, one goroutine at a time. \<^verbatim>\<open>tracker\<close> has no buffer, so a send on
  it and the receive by the main goroutine are one event, \<open>Signal\<close>, which names the
  sender. \<open>ReadSet\<close> names the order in which the range visited the keys.
\<close>

datatype sender = Worker nat | Gatherer

datatype event =
    Enqueue
  | CloseTasks
  | Call nat
  | Leave nat
  | Send nat
  | SendOnClosed nat
  | Signal sender
  | CloseRes
  | Ingest
  | GLeave
  | ReadSet "Result list"

text \<open>
  The state: where each goroutine is, the buffers of \<^verbatim>\<open>tasks\<close> and \<^verbatim>\<open>res\<close> (both of
  capacity \<^verbatim>\<open>*flConcurrency\<close>) and whether they are closed, \<^verbatim>\<open>resMap\<close>, the state
  outside the process, and whether the process has panicked.
\<close>

record 'w system =
  producer :: "'w producer_pc"
  workers :: "worker_pc list"
  gatherer :: gatherer_pc
  tasks_buf :: "'w task list"
  tasks_closed :: bool
  res_buf :: "Results list"
  res_closed :: bool
  resMap :: ResMap
  outside :: 'w
  crashed :: bool

definition init :: "Config \<Rightarrow> 'w task list \<Rightarrow> 'w \<Rightarrow> 'w system" where
  "init cfg defs w =
     \<lparr>producer = Enqueueing defs,
      workers = replicate (nat (flConcurrency cfg)) (Ranging 0),
      gatherer = Gathering,
      tasks_buf = [], tasks_closed = False,
      res_buf = [], res_closed = False,
      resMap = [], outside = w, crashed = False\<rparr>"

text \<open>
  A receive from \<^verbatim>\<open>tracker\<close> by the main goroutine takes whatever was sent, by whom ever:
  inside the loop while \<open>i < *flConcurrency\<close>, and at the statement after
  \<^verbatim>\<open>close(res)\<close>.
\<close>

definition receive_signal :: "Config \<Rightarrow> 'w producer_pc \<Rightarrow> 'w producer_pc option" where
  "receive_signal cfg p =
     (case p of
        Waiting i \<Rightarrow> if i < flConcurrency cfg then Some (Waiting (i + 1)) else None
      | AwaitingGatherer \<Rightarrow> Some Reading
      | _ \<Rightarrow> None)"

text \<open>
  The effect of an event, \<open>None\<close> when the goroutine is not at that statement or would
  block there. A send on a channel blocks while its buffer is full; a receive of a
  \<^verbatim>\<open>range\<close> takes the oldest element, blocks while the buffer is empty and the channel
  open, and ends the loop when the buffer is empty and the channel closed. A send on the
  closed \<^verbatim>\<open>res\<close> panics. A goroutine of the pool receives a task and calls it in one
  event (\<open>Call\<close>, by \<open>worker_turn\<close>); the gatherer receives a slice and works through it in
  one event (\<open>Ingest\<close>, by \<open>ingest\<close>).
\<close>

fun fire :: "Config \<Rightarrow> Resolver \<Rightarrow> ip_parser \<Rightarrow> 'w system \<Rightarrow> event \<Rightarrow> 'w system option" where
  "fire cfg dns to4 s Enqueue =
     (case producer s of
        Enqueueing (def # defs) \<Rightarrow>
          if int (length (tasks_buf s)) < flConcurrency cfg
          then Some (s\<lparr>producer := Enqueueing defs, tasks_buf := tasks_buf s @ [def]\<rparr>)
          else None
      | _ \<Rightarrow> None)"
| "fire cfg dns to4 s CloseTasks =
     (case producer s of
        Enqueueing [] \<Rightarrow> Some (s\<lparr>producer := Waiting 0, tasks_closed := True\<rparr>)
      | _ \<Rightarrow> None)"
| "fire cfg dns to4 s (Call k) =
     (if k < length (workers s) then
        (case (workers s ! k, tasks_buf s) of
           (Ranging c, def # defs) \<Rightarrow>
             (case worker_turn cfg c def (outside s) of
                (c', written, sent, w') \<Rightarrow>
                  Some (s\<lparr>workers := (workers s)
                             [k := (case sent of None \<Rightarrow> Ranging c' | Some r \<Rightarrow> Sending c' r)],
                           tasks_buf := defs, outside := w'\<rparr>))
         | _ \<Rightarrow> None)
      else None)"
| "fire cfg dns to4 s (Leave k) =
     (if k < length (workers s) then
        (case workers s ! k of
           Ranging c \<Rightarrow>
             if tasks_buf s = [] \<and> tasks_closed s
             then Some (s\<lparr>workers := (workers s)[k := Signalling]\<rparr>)
             else None
         | _ \<Rightarrow> None)
      else None)"
| "fire cfg dns to4 s (Send k) =
     (if k < length (workers s) then
        (case workers s ! k of
           Sending c r \<Rightarrow>
             if \<not> res_closed s \<and> int (length (res_buf s)) < flConcurrency cfg
             then Some (s\<lparr>workers := (workers s)[k := Ranging c], res_buf := res_buf s @ [r]\<rparr>)
             else None
         | _ \<Rightarrow> None)
      else None)"
| "fire cfg dns to4 s (SendOnClosed k) =
     (if k < length (workers s) then
        (case workers s ! k of
           Sending c r \<Rightarrow> if res_closed s then Some (s\<lparr>crashed := True\<rparr>) else None
         | _ \<Rightarrow> None)
      else None)"
| "fire cfg dns to4 s (Signal (Worker k)) =
     (if k < length (workers s) \<and> workers s ! k = Signalling then
        (case receive_signal cfg (producer s) of
           Some p \<Rightarrow> Some (s\<lparr>producer := p, workers := (workers s)[k := Exited]\<rparr>)
         | None \<Rightarrow> None)
      else None)"
| "fire cfg dns to4 s (Signal Gatherer) =
     (if gatherer s = GSignalling then
        (case receive_signal cfg (producer s) of
           Some p \<Rightarrow> Some (s\<lparr>producer := p, gatherer := GExited\<rparr>)
         | None \<Rightarrow> None)
      else None)"
| "fire cfg dns to4 s CloseRes =
     (case producer s of
        Waiting i \<Rightarrow>
          if \<not> i < flConcurrency cfg
          then Some (s\<lparr>producer := AwaitingGatherer, res_closed := True\<rparr>)
          else None
      | _ \<Rightarrow> None)"
| "fire cfg dns to4 s Ingest =
     (case (gatherer s, res_buf s) of
        (Gathering, result # rest) \<Rightarrow>
          Some (s\<lparr>res_buf := rest, resMap := ingest cfg dns (resMap s) result\<rparr>)
      | _ \<Rightarrow> None)"
| "fire cfg dns to4 s GLeave =
     (case gatherer s of
        Gathering \<Rightarrow>
          if res_buf s = [] \<and> res_closed s then Some (s\<lparr>gatherer := GSignalling\<rparr>) else None
      | _ \<Rightarrow> None)"
| "fire cfg dns to4 s (ReadSet ks) =
     (case producer s of
        Reading \<Rightarrow>
          if ranges_over ks (resMap s)
          then (case sorted_results to4 ks of
                  Inr results \<Rightarrow> Some (s\<lparr>producer := Finished results\<rparr>)
                | Inl e \<Rightarrow> Some (s\<lparr>crashed := True\<rparr>))
          else None
      | _ \<Rightarrow> None)"

text \<open>
  A panic ends the process: nothing happens after it.
\<close>

definition step :: "Config \<Rightarrow> Resolver \<Rightarrow> ip_parser \<Rightarrow> 'w system \<Rightarrow> event \<Rightarrow> 'w system option" where
  "step cfg dns to4 s ev = (if crashed s then None else fire cfg dns to4 s ev)"

text \<open>
  A run is the sequence of the events, in the order in which they happened.
\<close>

fun run :: "Config \<Rightarrow> Resolver \<Rightarrow> ip_parser \<Rightarrow> 'w system \<Rightarrow> event list \<Rightarrow> 'w system option" where
  "run cfg dns to4 s [] = Some s"
| "run cfg dns to4 s (ev # evs) =
     (case step cfg dns to4 s ev of
        None \<Rightarrow> None
      | Some s' \<Rightarrow> run cfg dns to4 s' evs)"

text \<open>
  The events of the shutdown: the two closes, the signals, and the read of the set.
\<close>

fun shutdown :: "event \<Rightarrow> bool" where
  "shutdown CloseTasks = True"
| "shutdown (Signal who) = True"
| "shutdown CloseRes = True"
| "shutdown (ReadSet ks) = True"
| "shutdown ev = False"

text \<open>
  A bound on the number of events still to come.
\<close>

fun producer_rank :: "Config \<Rightarrow> 'w producer_pc \<Rightarrow> nat" where
  "producer_rank cfg (Enqueueing defs) = 4 * length defs + nat (flConcurrency cfg) + 6"
| "producer_rank cfg (Waiting i) = nat (flConcurrency cfg - i) + 4"
| "producer_rank cfg AwaitingGatherer = 3"
| "producer_rank cfg Reading = 2"
| "producer_rank cfg (Finished results) = 0"

fun worker_rank :: "worker_pc \<Rightarrow> nat" where
  "worker_rank (Ranging c) = 2"
| "worker_rank (Sending c r) = 4"
| "worker_rank Signalling = 1"
| "worker_rank Exited = 0"

fun gatherer_rank :: "gatherer_pc \<Rightarrow> nat" where
  "gatherer_rank Gathering = 2"
| "gatherer_rank GSignalling = 1"
| "gatherer_rank GExited = 0"

definition rank :: "Config \<Rightarrow> 'w system \<Rightarrow> nat" where
  "rank cfg s =
     producer_rank cfg (producer s) + sum_list (map worker_rank (workers s))
     + gatherer_rank (gatherer s) + 3 * length (tasks_buf s) + length (res_buf s)
     + (if crashed s then 0 else 1)"

text \<open>
  A task of the examples.
\<close>

definition task_ns :: "nat task" where
  "task_ns w = ((''ns'', [ex_ns], None), Suc w)"

text \<open>
  The goroutines of the pool that have returned.
\<close>

definition exited :: "worker_pc list \<Rightarrow> nat set" where
  "exited ws = {k. k < length ws \<and> ws ! k = Exited}"

text \<open>
  Where the main goroutine is: past its loop of receives, past both signals, still
  sending.
\<close>

fun past_waiting :: "'w producer_pc \<Rightarrow> bool" where
  "past_waiting (Enqueueing defs) = False"
| "past_waiting (Waiting i) = False"
| "past_waiting p = True"

fun past_signals :: "'w producer_pc \<Rightarrow> bool" where
  "past_signals Reading = True"
| "past_signals (Finished results) = True"
| "past_signals p = False"

fun enqueueing :: "'w producer_pc \<Rightarrow> bool" where
  "enqueueing (Enqueueing defs) = True"
| "enqueueing p = False"

text \<open>
  What holds of every state of every run: the channels are closed exactly when the main
  goroutine is past the close; a goroutine of the pool leaves its loop only once
  \<^verbatim>\<open>tasks\<close> is closed and empty, and the gatherer only once \<^verbatim>\<open>res\<close> is; the main
  goroutine is past its loop of receives only when every goroutine of the pool has
  returned, and inside the loop its counter is the number of those that have.
\<close>

definition inv_state :: "Config \<Rightarrow> 'w system \<Rightarrow> bool" where
  "inv_state cfg s =
     (length (workers s) = nat (flConcurrency cfg)
      \<and> \<not> crashed s
      \<and> tasks_closed s = (\<not> enqueueing (producer s))
      \<and> res_closed s = past_waiting (producer s)
      \<and> (exited (workers s) \<noteq> {} \<or> Signalling \<in> set (workers s)
           \<longrightarrow> tasks_closed s \<and> tasks_buf s = [])
      \<and> (gatherer s \<noteq> Gathering \<longrightarrow> res_closed s \<and> res_buf s = [])
      \<and> (gatherer s = GExited) = past_signals (producer s)
      \<and> (past_waiting (producer s) \<longrightarrow> exited (workers s) = {..<length (workers s)})
      \<and> (\<forall>i. producer s = Waiting i \<longrightarrow> i = int (card (exited (workers s)))))"

text \<open>
  The events of the shutdown that have happened, for each place of the main goroutine:
  \<open>ks\<close> are the goroutines of the pool in the order in which their signals were
  received.
\<close>

definition signals :: "nat list \<Rightarrow> event list" where
  "signals ks = map (\<lambda>k. Signal (Worker k)) ks"

fun chain :: "'w producer_pc \<Rightarrow> nat list \<Rightarrow> event list \<Rightarrow> bool" where
  "chain (Enqueueing defs) ks sh = (sh = [] \<and> ks = [])"
| "chain (Waiting i) ks sh = (sh = CloseTasks # signals ks)"
| "chain AwaitingGatherer ks sh = (sh = CloseTasks # signals ks @ [CloseRes])"
| "chain Reading ks sh = (sh = CloseTasks # signals ks @ [CloseRes, Signal Gatherer])"
| "chain (Finished results) ks sh =
     (\<exists>order. sh = CloseTasks # signals ks @ [CloseRes, Signal Gatherer, ReadSet order])"

definition inv_trace :: "event list \<Rightarrow> 'w system \<Rightarrow> bool" where
  "inv_trace evs s =
     (\<exists>ks. distinct ks \<and> set ks = exited (workers s) \<and> chain (producer s) ks (filter shutdown evs))"

text \<open>
  The main goroutine is done; some event can happen.
\<close>

fun finished :: "'w producer_pc \<Rightarrow> bool" where
  "finished (Finished results) = True"
| "finished p = False"

definition enabled :: "Config \<Rightarrow> Resolver \<Rightarrow> ip_parser \<Rightarrow> 'w system \<Rightarrow> bool" where
  "enabled cfg dns to4 s = (\<exists>ev s'. step cfg dns to4 s ev = Some s')"

text \<open>
  Two goroutines in the pool and two tasks that find the same record.
\<close>

definition cfg_two :: Config where
  "cfg_two = cfg_plain\<lparr>flConcurrency := 2\<rparr>"

definition two_probes :: "event list" where
  "two_probes =
     [Enqueue, Enqueue, CloseTasks, Call 0, Call 1, Send 1, Send 0, Leave 0, Ingest, Leave 1,
      Signal (Worker 1), Ingest, Signal (Worker 0), CloseRes, GLeave, Signal Gatherer,
      ReadSet [ex_ns]]"

definition after_two_probes :: "nat system" where
  "after_two_probes =
     \<lparr>producer = Finished [ex_ns], workers = [Exited, Exited], gatherer = GExited,
      tasks_buf = [], tasks_closed = True, res_buf = [], res_closed = True,
      resMap = [(ex_ns, True)], outside = 2, crashed = False\<rparr>"

text \<open>
  A state in which the second goroutine of the pool is about to receive a task that
  fails.
\<close>

definition before_failure :: "nat system" where
  "before_failure =
     \<lparr>producer = Enqueueing [], workers = [Ranging 0, Ranging 0], gatherer = Gathering,
      tasks_buf = [task_failing], tasks_closed = False, res_buf = [], res_closed = False,
      resMap = [], outside = 0, crashed = False\<rparr>"

section \<open>The comparator\<close>

lemma less_entries_unparsed: "to4 (IP x) = None \<Longrightarrow> less_entries to4 x y"
  by (simp add: less_entries_def)

lemma less_entries_key:
  "less_entries to4 x y \<longleftrightarrow> sort_key to4 x = 0 \<or> sort_key to4 x < sort_key to4 y"
  by (auto simp: less_entries_def sort_key_def word_less_nat_alt split: option.splits)

text \<open>
  C10. When the IP fields of entries \<open>i\<close> and \<open>j\<close> both fail to parse as IPv4, the comparator
  returns true for \<open>Less(i, j)\<close>, for \<open>Less(j, i)\<close> and for \<open>Less(i, i)\<close>: on such entries
  it is neither irreflexive nor asymmetric, hence no strict weak ordering.
\<close>

theorem Less_unparsed_both_ways:
  assumes "0 \<le> i" "i < Len r" "0 \<le> j" "j < Len r"
    and "to4 (IP (r ! nat i)) = None" "to4 (IP (r ! nat j)) = None"
  shows "Less to4 r i j = Inr True \<and> Less to4 r j i = Inr True \<and> Less to4 r i i = Inr True"
  using assms by (simp add: Less_def Len_def less_entries_unparsed)

theorem Less_unparsed_both_ways_witness:
  "(0::int) \<le> 0 \<and> 0 < Len [ex_v6, ex_bad] \<and> (0::int) \<le> 1 \<and> 1 < Len [ex_v6, ex_bad]
   \<and> dotted_quad (IP ([ex_v6, ex_bad] ! nat 0)) = None
   \<and> dotted_quad (IP ([ex_v6, ex_bad] ! nat 1)) = None
   \<and> Less dotted_quad [ex_v6, ex_bad] 0 1 = Inr True
   \<and> Less dotted_quad [ex_v6, ex_bad] 1 0 = Inr True
   \<and> Less dotted_quad [ex_v6, ex_bad] 0 0 = Inr True"
proof -
  have p0: "dotted_quad (IP ([ex_v6, ex_bad] ! nat 0)) = None"
    by (simp add: ex_v6_def dotted_quad_def decimal_field_def is_digit_def)
  have p1: "dotted_quad (IP ([ex_v6, ex_bad] ! nat 1)) = None"
    by (simp add: ex_bad_def dotted_quad_def decimal_field_def is_digit_def)
  have len: "(0::int) \<le> 0" "0 < Len [ex_v6, ex_bad]" "(0::int) \<le> 1" "1 < Len [ex_v6, ex_bad]"
    by (simp_all add: Len_def)
  from Less_unparsed_both_ways [OF len p0 p1] p0 p1 len show ?thesis
    by simp
qed

section \<open>Insertion sort with the comparator\<close>

lemma nat_Suc_int: "nat (1 + int n) = Suc n"
  by simp

lemma Less_at:
  "Less to4 (pre @ y # x # suf) (int (Suc (length pre))) (int (Suc (length pre)) - 1)
     = Inr (less_entries to4 x y)"
  by (simp add: Less_def nth_append nat_Suc_int)

lemma Swap_at:
  "Swap (pre @ y # x # suf) (int (Suc (length pre))) (int (Suc (length pre)) - 1)
     = Inr (pre @ x # y # suf)"
  by (simp add: Swap_def nth_append list_update_append nat_Suc_int)

lemma sift_spec:
  "sorted (map (sort_key to4) pre) \<Longrightarrow>
   \<exists>ys. sift to4 (pre @ x # suf) 0 (int (length pre)) = Inr (ys @ suf)
        \<and> mset ys = mset (pre @ [x]) \<and> sorted (map (sort_key to4) ys)"
proof (induction pre arbitrary: suf rule: rev_induct)
  case Nil
  show ?case by (simp add: sift.simps [of _ _ 0 0])
next
  case (snoc y p)
  let ?j = "int (Suc (length p))"
  have unfold: "sift to4 (p @ y # x # suf) 0 ?j =
      (if less_entries to4 x y then sift to4 (p @ x # y # suf) 0 (int (length p))
       else Inr (p @ y # x # suf))"
    using Less_at [of to4 p y x suf] Swap_at [of p y x suf]
    by (subst sift.simps) simp
  from snoc.prems have sp: "sorted (map (sort_key to4) p)"
    and le_y: "\<forall>z \<in> set p. sort_key to4 z \<le> sort_key to4 y"
    by (auto simp: sorted_append)
  show ?case
  proof (cases "less_entries to4 x y")
    case True
    from snoc.IH [OF sp, of "y # suf"] obtain ys where
      ys: "sift to4 (p @ x # y # suf) 0 (int (length p)) = Inr (ys @ y # suf)"
        "mset ys = mset (p @ [x])" "sorted (map (sort_key to4) ys)"
      by blast
    from True have "sort_key to4 x \<le> sort_key to4 y"
      by (auto simp: less_entries_key)
    moreover from ys(2) have "set ys = set (p @ [x])"
      by (rule mset_eq_setD)
    ultimately have "\<forall>z \<in> set ys. sort_key to4 z \<le> sort_key to4 y"
      using le_y by auto
    with ys(3) have "sorted (map (sort_key to4) (ys @ [y]))"
      by (auto simp: sorted_append)
    moreover have "mset (ys @ [y]) = mset ((p @ [y]) @ [x])"
      using ys(2) by simp
    moreover have "sift to4 ((p @ [y]) @ x # suf) 0 (int (length (p @ [y]))) = Inr ((ys @ [y]) @ suf)"
      using unfold True ys(1) by simp
    ultimately show ?thesis by blast
  next
    case False
    then have "sort_key to4 y \<le> sort_key to4 x"
      by (auto simp: less_entries_key)
    with snoc.prems have "sorted (map (sort_key to4) ((p @ [y]) @ [x]))"
      by (auto simp: sorted_append intro: order_trans)
    moreover have "sift to4 ((p @ [y]) @ x # suf) 0 (int (length (p @ [y]))) = Inr (((p @ [y]) @ [x]) @ suf)"
      using unfold False by simp
    ultimately show ?thesis by blast
  qed
qed

lemma insertion_loop_spec:
  "sorted (map (sort_key to4) pre) \<Longrightarrow>
   \<exists>ys. insertion_loop to4 (pre @ rest) 0 (int (length (pre @ rest))) (int (length pre)) = Inr ys
        \<and> mset ys = mset (pre @ rest) \<and> sorted (map (sort_key to4) ys)"
proof (induction rest arbitrary: pre)
  case Nil
  then show ?case by (simp add: insertion_loop.simps [of _ _ _ "int (length pre)"])
next
  case (Cons x rest)
  from sift_spec [OF Cons.prems, of x rest] obtain ys where
    ys: "sift to4 (pre @ x # rest) 0 (int (length pre)) = Inr (ys @ rest)"
      "mset ys = mset (pre @ [x])" "sorted (map (sort_key to4) ys)"
    by blast
  from ys(2) have len: "length ys = Suc (length pre)"
    by (metis length_append_singleton size_mset)
  from Cons.IH [OF ys(3), of ] obtain zs where
    zs: "insertion_loop to4 (ys @ rest) 0 (int (length (ys @ rest))) (int (length ys)) = Inr zs"
      "mset zs = mset (ys @ rest)" "sorted (map (sort_key to4) zs)"
    by blast
  have "insertion_loop to4 (pre @ x # rest) 0 (int (length (pre @ x # rest))) (int (length pre)) = Inr zs"
    using ys(1) zs(1) len by (subst insertion_loop.simps) (simp add: add.commute)
  moreover have "mset zs = mset (pre @ x # rest)"
    using zs(2) ys(2) by simp
  ultimately show ?case using zs(3) by blast
qed

lemma sort_Sort_spec:
  "\<exists>ys. sort_Sort to4 data = Inr ys \<and> mset ys = mset data \<and> sorted (map (sort_key to4) ys)"
proof (cases data)
  case Nil
  then show ?thesis
    by (simp add: sort_Sort_def insertionSort_def Len_def insertion_loop.simps [of _ _ 0 0])
next
  case (Cons x rest)
  from insertion_loop_spec [of to4 "[x]" rest] Cons show ?thesis
    by (simp add: sort_Sort_def insertionSort_def Len_def)
qed







section \<open>The matcher decides membership\<close>

lemma conc_langI: "u \<in> A \<Longrightarrow> v \<in> B \<Longrightarrow> u @ v \<in> conc_lang A B"
  by (auto simp: conc_lang_def)

lemma conc_langE: "w \<in> conc_lang A B \<Longrightarrow> (\<And>u v. w = u @ v \<Longrightarrow> u \<in> A \<Longrightarrow> v \<in> B \<Longrightarrow> P) \<Longrightarrow> P"
  by (auto simp: conc_lang_def)

lemma Nil_in_conc: "[] \<in> conc_lang A B \<longleftrightarrow> [] \<in> A \<and> [] \<in> B"
  by (auto simp: conc_lang_def)

lemma Cons_in_conc:
  "c # w \<in> conc_lang A B \<longleftrightarrow>
     ([] \<in> A \<and> c # w \<in> B) \<or> (\<exists>u v. w = u @ v \<and> c # u \<in> A \<and> v \<in> B)"
  by (auto simp: conc_lang_def Cons_eq_append_conv)

lemma Cons_in_star:
  "c # w \<in> star_lang A \<longleftrightarrow> (\<exists>u v. w = u @ v \<and> c # u \<in> A \<and> v \<in> star_lang A)"
proof
  assume "c # w \<in> star_lang A"
  then show "\<exists>u v. w = u @ v \<and> c # u \<in> A \<and> v \<in> star_lang A"
  proof (induction "c # w" rule: star_lang.induct)
    case (more u v)
    then show ?case by (cases u) auto
  qed
next
  assume "\<exists>u v. w = u @ v \<and> c # u \<in> A \<and> v \<in> star_lang A"
  then obtain u v where "w = u @ v" "c # u \<in> A" "v \<in> star_lang A" by blast
  then show "c # w \<in> star_lang A"
    using star_lang.more [of "c # u" A v] by simp
qed

lemma nullable_lang: "nullable r \<longleftrightarrow> [] \<in> lang r"
  by (induction r) (auto simp: Nil_in_conc intro: star_lang.empty)

lemma conc_deriv:
  "(\<And>w. w \<in> D \<longleftrightarrow> c # w \<in> A) \<Longrightarrow>
   w \<in> conc_lang D B \<longleftrightarrow> (\<exists>u v. w = u @ v \<and> c # u \<in> A \<and> v \<in> B)"
  by (auto simp: conc_lang_def)

lemma deriv_lang: "w \<in> lang (deriv c r) \<longleftrightarrow> c # w \<in> lang r"
proof (induction r arbitrary: w)
  case (Seq r s)
  show ?case
    using Seq.IH(2) by (auto simp: Cons_in_conc nullable_lang conc_deriv [OF Seq.IH(1)])
next
  case (Star r)
  show ?case
    by (simp add: Cons_in_star conc_deriv [OF Star.IH])
next
  case (Plus r)
  have "c # w \<in> star_lang (lang r) \<Longrightarrow> \<exists>u v. w = u @ v \<and> c # u \<in> lang r \<and> v \<in> star_lang (lang r)"
    by (simp add: Cons_in_star)
  then show ?case
    by (auto simp: Cons_in_conc conc_deriv [OF Plus.IH])
qed auto

lemma matches_lang: "matches r s \<longleftrightarrow> s \<in> lang r"
  unfolding matches_def
  by (induction s arbitrary: r) (simp_all add: nullable_lang deriv_lang)

section \<open>The pattern and the grammar\<close>

lemma star_class: "w \<in> star_lang {[c] | c. P c} \<longleftrightarrow> list_all P w"
proof
  assume "w \<in> star_lang {[c] | c. P c}"
  then show "list_all P w"
    by induction auto
next
  assume "list_all P w"
  then show "w \<in> star_lang {[c] | c. P c}"
  proof (induction w)
    case Nil
    show ?case by (rule star_lang.empty)
  next
    case (Cons c w)
    then have "[c] @ w \<in> star_lang {[c] | c. P c}"
      by (intro star_lang.more) auto
    then show ?case by simp
  qed
qed

lemma plus_class:
  "w \<in> conc_lang {[c] | c. P c} (star_lang {[c] | c. P c}) \<longleftrightarrow> w \<noteq> [] \<and> list_all P w"
proof (cases w)
  case Nil
  then show ?thesis by (simp add: Nil_in_conc)
next
  case (Cons a t)
  have "[a] @ t \<in> conc_lang {[c] | c. P c} (star_lang {[c] | c. P c})" if "P a" "list_all P t"
    using that by (intro conc_langI) (auto simp: star_class)
  with Cons show ?thesis
    by (auto simp: star_class elim!: conc_langE)
qed

lemma in_class_alnum:
  "in_class [(CHR ''a'', CHR ''z''), (CHR ''0'', CHR ''9'')] c \<longleftrightarrow> lower_alnum c"
  by (simp add: in_class_def lower_alnum_def)

lemma in_class_alnum_hyphen:
  "in_class [(CHR ''a'', CHR ''z''), (CHR ''0'', CHR ''9''), (CHR ''-'', CHR ''-'')] c
     \<longleftrightarrow> lower_alnum c \<or> c = CHR ''-''"
proof -
  have "(of_char CHR ''-'' :: nat) \<le> of_char c \<and> (of_char c :: nat) \<le> of_char CHR ''-''
      \<longleftrightarrow> (of_char c :: nat) = of_char CHR ''-''"
    by auto
  also have "\<dots> \<longleftrightarrow> c = CHR ''-''"
    by (simp only: of_char_eq_iff)
  finally show ?thesis
    by (simp add: in_class_def lower_alnum_def)
qed

lemma hyphen_not_alnum: "\<not> lower_alnum CHR ''-''"
  by (simp add: lower_alnum_def)

lemma dot_not_alnum: "\<not> lower_alnum CHR ''.''"
  by (simp add: lower_alnum_def)

lemma lang_label: "w \<in> lang domainReg_label \<longleftrightarrow> grammar_label w"
proof
  assume "w \<in> lang domainReg_label"
  then obtain u v where w: "w = u @ v" and u0: "u \<in> lang (Plus alnum)"
    and v0: "v \<in> lang (Alt (Star alnum) (Seq (Star alnum_hyphen) alnum))"
    unfolding domainReg_label_def lang.simps(5) by (erule conc_langE)
  from u0 have u: "u \<noteq> []" "list_all lower_alnum u"
    by (simp_all add: alnum_def in_class_alnum plus_class)
  from v0 have v: "list_all lower_alnum v
            \<or> (\<exists>h a. v = h @ [a] \<and> list_all (\<lambda>c. lower_alnum c \<or> c = CHR ''-'') h \<and> lower_alnum a)"
    by (auto simp: alnum_def alnum_hyphen_def in_class_alnum in_class_alnum_hyphen star_class
        elim!: conc_langE)
  from u have hd: "lower_alnum (hd u)" by (cases u) auto
  from u have lastu: "lower_alnum (last u)" by (induction u) (auto split: if_splits)
  from v have "list_all (\<lambda>c. lower_alnum c \<or> c = CHR ''-'') v \<and> (v \<noteq> [] \<longrightarrow> lower_alnum (last v))"
  proof
    assume a: "list_all lower_alnum v"
    then have "v \<noteq> [] \<longrightarrow> lower_alnum (last v)" by (induction v) (auto split: if_splits)
    with a show ?thesis by (auto simp: list_all_iff)
  next
    assume "\<exists>h a. v = h @ [a] \<and> list_all (\<lambda>c. lower_alnum c \<or> c = CHR ''-'') h \<and> lower_alnum a"
    then show ?thesis by auto
  qed
  then have v_all: "list_all (\<lambda>c. lower_alnum c \<or> c = CHR ''-'') v"
    and v_last: "v \<noteq> [] \<Longrightarrow> lower_alnum (last v)"
    by simp_all
  from w u have "hd w = hd u" by simp
  with hd have hd_w: "hd w \<noteq> CHR ''-''"
    using hyphen_not_alnum by metis
  have "lower_alnum (last w)"
  proof (cases "v = []")
    case True
    with w lastu show ?thesis by simp
  next
    case False
    with w v_last show ?thesis by simp
  qed
  then have last_w: "last w \<noteq> CHR ''-''"
    using hyphen_not_alnum by metis
  from w u v_all have "list_all (\<lambda>c. lower_alnum c \<or> c = CHR ''-'') w"
    by (auto simp: list_all_iff)
  with w u hd_w last_w show "grammar_label w"
    by (simp add: grammar_label_def)
next
  assume g: "grammar_label w"
  then obtain x t where w: "w = x # t" by (cases w) (auto simp: grammar_label_def)
  with g have x: "lower_alnum x" by (auto simp: grammar_label_def)
  have first: "[x] \<in> lang (Plus alnum)"
    using x by (simp add: alnum_def in_class_alnum plus_class)
  have rest: "t \<in> lang (Alt (Star alnum) (Seq (Star alnum_hyphen) alnum))"
  proof (cases "t = []")
    case True
    then show ?thesis by (simp add: star_lang.empty)
  next
    case False
    then have t: "t = butlast t @ [last t]" by simp
    from g w False have "lower_alnum (last t)" "list_all (\<lambda>c. lower_alnum c \<or> c = CHR ''-'') (butlast t)"
      by (auto simp: grammar_label_def list_all_iff dest: in_set_butlastD)
    then have "butlast t @ [last t] \<in> lang (Seq (Star alnum_hyphen) alnum)"
      by (auto simp: alnum_def alnum_hyphen_def in_class_alnum in_class_alnum_hyphen star_class
          intro!: conc_langI)
    with t show ?thesis by simp
  qed
  from conc_langI [OF first rest] w show "w \<in> lang domainReg_label"
    by (simp add: domainReg_label_def)
qed

lemma grammar_label_no_dot: "grammar_label w \<Longrightarrow> CHR ''.'' \<notin> set w"
  using dot_not_alnum by (auto simp: grammar_label_def list_all_iff)

lemma split_on_no_sep: "c \<notin> set w \<Longrightarrow> split_on c w = [w]"
  by (induction w) auto

lemma split_on_first_sep: "c \<notin> set w \<Longrightarrow> split_on c (w @ c # rest) = w # split_on c rest"
  by (induction w) auto

lemma labels_split_forward:
  "v \<in> star_lang dot_labels \<Longrightarrow> grammar_label w \<Longrightarrow>
   list_all grammar_label (split_on CHR ''.'' (w @ v))"
proof (induction v arbitrary: w rule: star_lang.induct)
  case empty
  then show ?case by (simp add: split_on_no_sep grammar_label_no_dot)
next
  case (more u v)
  from more.hyps(1) obtain w' where u: "u = CHR ''.'' # w'" and w': "grammar_label w'"
    by (auto simp: dot_labels_def conc_lang_def)
  from more.IH [OF w'] more.prems u show ?case
    by (simp add: split_on_first_sep grammar_label_no_dot)
qed

lemma labels_split_backward:
  "list_all grammar_label (split_on CHR ''.'' t) \<Longrightarrow>
   \<exists>w v. t = w @ v \<and> grammar_label w \<and> v \<in> star_lang dot_labels"
proof (induction t rule: length_induct)
  case (1 t)
  show ?case
  proof (cases "CHR ''.'' \<in> set t")
    case False
    with "1.prems" have "grammar_label t" by (simp add: split_on_no_sep)
    then show ?thesis using star_lang.empty [of dot_labels] by (intro exI [of _ t] exI [of _ "[]"]) simp
  next
    case True
    then obtain w rest where t: "t = w @ CHR ''.'' # rest" and w: "CHR ''.'' \<notin> set w"
      by (auto dest: split_list_first)
    with "1.prems" have gw: "grammar_label w" and gr: "list_all grammar_label (split_on CHR ''.'' rest)"
      by (simp_all add: split_on_first_sep)
    from t have "length rest < length t" by simp
    with "1.IH" gr obtain w' v' where
      r: "rest = w' @ v'" "grammar_label w'" "v' \<in> star_lang dot_labels"
      by blast
    have "[CHR ''.''] @ w' \<in> dot_labels"
      unfolding dot_labels_def using r(2) by (intro conc_langI) auto
    from star_lang.more [OF this r(3)] have "CHR ''.'' # rest \<in> star_lang dot_labels"
      using r(1) by simp
    with t gw show ?thesis by blast
  qed
qed

lemma lang_domainReg: "s \<in> lang domainReg \<longleftrightarrow> domain_grammar s"
proof -
  have labels: "lang domainReg_label = {w. grammar_label w}"
    by (auto simp: lang_label)
  have body_lang: "lang (Seq domainReg_label (Star (Seq (Lit CHR ''.'') domainReg_label)))
      = conc_lang {w. grammar_label w} (star_lang dot_labels)"
    by (simp add: labels dot_labels_def)
  have body: "t \<in> lang (Seq domainReg_label (Star (Seq (Lit CHR ''.'') domainReg_label)))
      \<longleftrightarrow> list_all grammar_label (split_on CHR ''.'' t)" for t
  proof
    assume "t \<in> lang (Seq domainReg_label (Star (Seq (Lit CHR ''.'') domainReg_label)))"
    then obtain w v where "t = w @ v" "grammar_label w" "v \<in> star_lang dot_labels"
      unfolding body_lang by (auto elim!: conc_langE)
    then show "list_all grammar_label (split_on CHR ''.'' t)"
      using labels_split_forward by simp
  next
    assume "list_all grammar_label (split_on CHR ''.'' t)"
    from labels_split_backward [OF this] obtain w v where
      "t = w @ v" "grammar_label w" "v \<in> star_lang dot_labels" by blast
    then show "t \<in> lang (Seq domainReg_label (Star (Seq (Lit CHR ''.'') domainReg_label)))"
      unfolding body_lang by (auto intro!: conc_langI)
  qed
  have no_dot_first: "\<not> list_all grammar_label (split_on CHR ''.'' (CHR ''.'' # t))" for t
    by (simp add: grammar_label_def)
  define B where "B = lang (Seq domainReg_label (Star (Seq (Lit CHR ''.'') domainReg_label)))"
  have "lang domainReg = conc_lang (insert [] {[CHR ''.'']}) B"
    by (simp add: domainReg_def B_def)
  moreover have "[CHR ''.''] @ t \<in> conc_lang (insert [] {[CHR ''.'']}) B" if "t \<in> B" for t
    using that by (intro conc_langI) simp_all
  moreover have "[] @ t \<in> conc_lang (insert [] {[CHR ''.'']}) B" if "t \<in> B" for t
    using that by (intro conc_langI) simp_all
  ultimately have outer: "s \<in> lang domainReg \<longleftrightarrow> s \<in> B \<or> (\<exists>t. s = CHR ''.'' # t \<and> t \<in> B)"
    by (auto elim!: conc_langE)
  have inB: "t \<in> B \<longleftrightarrow> list_all grammar_label (split_on CHR ''.'' t)" for t
    unfolding B_def by (rule body)
  show ?thesis
  proof (cases s)
    case Nil
    with outer show ?thesis
      by (simp add: inB domain_grammar_def grammar_label_def)
  next
    case (Cons c t)
    show ?thesis
    proof (cases "c = CHR ''.''")
      case True
      with Cons no_dot_first [of t] outer show ?thesis
        by (auto simp: inB domain_grammar_def)
    next
      case False
      with Cons outer show ?thesis
        by (auto simp: inB domain_grammar_def)
    qed
  qed
qed

lemma regexp_Match_domainReg: "regexp_Match domainReg s = (domain_grammar s, None)"
  by (simp add: regexp_Match_def matches_lang lang_domainReg)

section \<open>Keys of the gatherer's map\<close>

lemma set_keys_set_true: "set (keys (set_true m k)) = insert k (set (keys m))"
  by (induction m) (auto simp: set_true_def keys_def)

lemma distinct_keys_set_true: "distinct (keys m) \<Longrightarrow> distinct (keys (set_true m k))"
  by (simp add: set_true_def keys_def distinct_update)

lemma set_true_twice: "set_true (set_true m k) k = set_true m k"
  unfolding set_true_def by (induction m) auto

lemma set_keys_confirm:
  "set (keys (confirm cfg dns m r)) =
     set (keys m) \<union> {fcrdns_entry ip (Hostname r) | ip. corroborated cfg dns (Hostname r) ip}"
  by (auto simp: confirm_def Let_def set_keys_set_true corroborated_def v4_direct_def
      v4_by_cname_def v6_direct_def answered_def split: prod.splits)

lemma distinct_keys_confirm: "distinct (keys m) \<Longrightarrow> distinct (keys (confirm cfg dns m r))"
  by (auto simp: confirm_def Let_def distinct_keys_set_true split: prod.splits)

lemma set_keys_accept:
  "set (keys (accept cfg m r)) =
     set (keys m) \<union> (if flValidate cfg \<and> \<not> domain_grammar (Hostname r) then {} else {r})"
  by (simp add: accept_def regexp_Match_domainReg set_keys_set_true)

lemma distinct_keys_accept: "distinct (keys m) \<Longrightarrow> distinct (keys (accept cfg m r))"
  by (simp add: accept_def regexp_Match_domainReg distinct_keys_set_true)

lemma set_keys_foldl_confirm:
  "set (keys (foldl (confirm cfg dns) m rs)) =
     set (keys m) \<union> {fcrdns_entry ip (Hostname r) | r ip. r \<in> set rs \<and> corroborated cfg dns (Hostname r) ip}"
  by (induction rs arbitrary: m) (auto simp: set_keys_confirm)

lemma set_keys_foldl_accept:
  "set (keys (foldl (accept cfg) m rs)) =
     set (keys m) \<union> {r \<in> set rs. flValidate cfg \<longrightarrow> domain_grammar (Hostname r)}"
  by (induction rs arbitrary: m) (auto simp: set_keys_accept)

lemma distinct_keys_ingest: "distinct (keys m) \<Longrightarrow> distinct (keys (ingest cfg dns m result))"
proof -
  have a: "distinct (keys m) \<Longrightarrow> distinct (keys (foldl (confirm cfg dns) m rs))" for m rs
    by (induction rs arbitrary: m) (simp_all add: distinct_keys_confirm)
  have b: "distinct (keys m) \<Longrightarrow> distinct (keys (foldl (accept cfg) m rs))" for m rs
    by (induction rs arbitrary: m) (simp_all add: distinct_keys_accept)
  show "distinct (keys m) \<Longrightarrow> distinct (keys (ingest cfg dns m result))"
    by (simp add: ingest_def a b)
qed

lemma set_keys_ingest:
  "set (keys (ingest cfg dns m result)) =
     set (keys m) \<union>
     (if flFcrdns cfg
      then {fcrdns_entry ip (Hostname r) | r ip. r \<in> set result \<and> corroborated cfg dns (Hostname r) ip}
      else {r \<in> set result. flValidate cfg \<longrightarrow> domain_grammar (Hostname r)})"
  by (cases "result = []") (simp_all add: ingest_def set_keys_foldl_confirm set_keys_foldl_accept)

lemma distinct_keys_foldl_ingest:
  "distinct (keys m) \<Longrightarrow> distinct (keys (foldl (ingest cfg dns) m received))"
  by (induction received arbitrary: m) (simp_all add: distinct_keys_ingest)

lemma distinct_keys_gather: "distinct (keys (gather cfg dns received))"
  using distinct_keys_foldl_ingest [of "[]" cfg dns received] by (simp add: gather_def keys_def)

lemma set_keys_foldl_ingest:
  "set (keys (foldl (ingest cfg dns) m received)) =
     set (keys m) \<union>
     (if flFcrdns cfg
      then {fcrdns_entry ip (Hostname r) | r ip.
              r \<in> set (concat received) \<and> corroborated cfg dns (Hostname r) ip}
      else {r \<in> set (concat received). flValidate cfg \<longrightarrow> domain_grammar (Hostname r)})"
proof (induction received arbitrary: m)
  case Nil
  show ?case by simp
next
  case (Cons b bs)
  show ?case
  proof (cases "flFcrdns cfg")
    case True
    then show ?thesis
      by (simp add: Cons.IH set_keys_ingest) blast
  next
    case False
    then show ?thesis
      by (simp add: Cons.IH set_keys_ingest) blast
  qed
qed

lemma set_keys_gather:
  "set (keys (gather cfg dns received)) =
     (if flFcrdns cfg
      then {fcrdns_entry ip (Hostname r) | r ip.
              r \<in> set (concat received) \<and> corroborated cfg dns (Hostname r) ip}
      else {r \<in> set (concat received). flValidate cfg \<longrightarrow> domain_grammar (Hostname r)})"
  using set_keys_foldl_ingest [of cfg dns "[]" received] by (simp add: gather_def keys_def)

section \<open>The final sequence and forward confirmation\<close>

text \<open>
  C1. Whatever slices the gatherer received and in whatever order, and whatever order the
  range over the map took, the sorted final sequence has no entry twice and holds exactly
  the keys of the map; setting a key that is already set changes nothing.
\<close>

theorem final_sequence_distinct:
  assumes "ranges_over ks (gather cfg dns received)"
  shows "(\<exists>ys. sorted_results to4 ks = Inr ys \<and> distinct ys
            \<and> set ys = set (keys (gather cfg dns received)))
         \<and> set_true (set_true m k) k = set_true m k"
proof -
  from sort_Sort_spec [of to4 ks] obtain ys where
    ys: "sort_Sort to4 ks = Inr ys" "mset ys = mset ks" by blast
  from ys(2) assms have m: "mset ys = mset (keys (gather cfg dns received))"
    by (simp add: ranges_over_def)
  then have "distinct ys"
    using distinct_keys_gather [of cfg dns received] by (metis mset_eq_imp_distinct_iff)
  moreover from m have "set ys = set (keys (gather cfg dns received))"
    by (rule mset_eq_setD)
  ultimately show ?thesis
    using ys(1) by (simp add: sorted_results_def set_true_twice)
qed

lemma set_true_Nil: "set_true [] k = [(k, True)]"
  by (simp add: set_true_def)

lemma set_true_Cons:
  "set_true (p # ps) k = (if fst p = k then (k, True) # ps else p # set_true ps k)"
  by (simp add: set_true_def)

lemma gather_twice: "gather cfg_plain dns_silent [[ex_ns], [ex_ns]] = [(ex_ns, True)]"
  by (simp add: gather_def ingest_def accept_def cfg_plain_def set_true_Nil set_true_Cons)

theorem final_sequence_distinct_witness:
  "ranges_over [ex_ns] (gather cfg_plain dns_silent [[ex_ns], [ex_ns]])
   \<and> sorted_results dotted_quad [ex_ns] = Inr [ex_ns]
   \<and> (\<exists>ys. sorted_results dotted_quad [ex_ns] = Inr ys \<and> distinct ys
            \<and> set ys = set (keys (gather cfg_plain dns_silent [[ex_ns], [ex_ns]])))"
proof -
  have r: "ranges_over [ex_ns] (gather cfg_plain dns_silent [[ex_ns], [ex_ns]])"
    by (simp add: ranges_over_def gather_twice keys_def)
  have s: "sorted_results dotted_quad [ex_ns] = Inr [ex_ns]"
    by code_simp
  from final_sequence_distinct [OF r, of dotted_quad] r s show ?thesis
    by simp
qed

text \<open>
  C3. With \<open>-fcrdns\<close>, the keys of the map are exactly the entries with source
  \<open>fcrdns\<close>, the hostname of a received record and an address under which that hostname
  is corroborated (A record, A record of the canonical name, or AAAA record). A received
  record whose hostname is corroborated under no address leaves no entry with its
  hostname in the map.
\<close>

theorem fcrdns_filter:
  assumes "flFcrdns cfg"
  shows "set (keys (gather cfg dns received)) =
           {fcrdns_entry ip (Hostname r) | r ip.
              r \<in> set (concat received) \<and> corroborated cfg dns (Hostname r) ip}
         \<and> (\<forall>r \<in> set (concat received).
               (\<forall>ip. \<not> corroborated cfg dns (Hostname r) ip) \<longrightarrow>
               (\<forall>k \<in> set (keys (gather cfg dns received)). Hostname k \<noteq> Hostname r))"
  using assms by (auto simp: set_keys_gather fcrdns_entry_def)

lemma gather_google:
  "gather cfg_fcrdns dns_google [[ex_google, ex_lost]] = [(fcrdns_entry ''8.8.8.8'' ''dns.google'', True)]"
  by (simp add: gather_def ingest_def confirm_def cfg_fcrdns_def cfg_plain_def dns_google_def
      no_such_host_def ex_google_def ex_lost_def set_true_Nil set_true_Cons)

lemma ex_lost_not_corroborated: "\<not> corroborated cfg_fcrdns dns_google (Hostname ex_lost) ip"
  by (simp add: corroborated_def v4_direct_def v4_by_cname_def v6_direct_def answered_def
      dns_google_def no_such_host_def ex_lost_def)

theorem fcrdns_filter_witness:
  "flFcrdns cfg_fcrdns
   \<and> keys (gather cfg_fcrdns dns_google [[ex_google, ex_lost]]) = [fcrdns_entry ''8.8.8.8'' ''dns.google'']
   \<and> ex_lost \<in> set (concat [[ex_google, ex_lost]])
   \<and> (\<forall>ip. \<not> corroborated cfg_fcrdns dns_google (Hostname ex_lost) ip)
   \<and> Hostname ex_lost \<notin> Hostname ` set (keys (gather cfg_fcrdns dns_google [[ex_google, ex_lost]]))"
proof -
  have f: "flFcrdns cfg_fcrdns"
    by (simp add: cfg_fcrdns_def)
  from fcrdns_filter [OF f, of dns_google "[[ex_google, ex_lost]]"] ex_lost_not_corroborated
  have "\<forall>k \<in> set (keys (gather cfg_fcrdns dns_google [[ex_google, ex_lost]])).
         Hostname k \<noteq> Hostname ex_lost"
    by simp
  then have "Hostname ex_lost \<notin> Hostname ` set (keys (gather cfg_fcrdns dns_google [[ex_google, ex_lost]]))"
    by (auto simp: image_iff)
  moreover have "keys (gather cfg_fcrdns dns_google [[ex_google, ex_lost]]) = [fcrdns_entry ''8.8.8.8'' ''dns.google'']"
    by (simp add: gather_google keys_def)
  moreover have "ex_lost \<in> set (concat [[ex_google, ex_lost]])"
    by simp
  moreover have "\<forall>ip. \<not> corroborated cfg_fcrdns dns_google (Hostname ex_lost) ip"
    by (simp add: ex_lost_not_corroborated)
  ultimately show ?thesis
    using f by (intro conjI)
qed

section \<open>Flags, the timeout and the pool\<close>

lemma confirm_flipv6: "confirm (cfg\<lparr>flipv6 := b\<rparr>) = confirm cfg"
  by (intro ext) (simp add: confirm_def Let_def split: prod.splits)

lemma accept_flipv6: "accept (cfg\<lparr>flipv6 := b\<rparr>) = accept cfg"
  by (intro ext) (simp add: accept_def)

lemma gather_flipv6: "gather (cfg\<lparr>flipv6 := b\<rparr>) dns received = gather cfg dns received"
proof -
  have "ingest (cfg\<lparr>flipv6 := b\<rparr>) dns = ingest cfg dns"
    by (intro ext) (simp add: ingest_def confirm_flipv6 accept_flipv6)
  then show ?thesis by (simp add: gather_def)
qed

lemma gather_v6_only:
  "gather cfg_fcrdns dns_v6_only [[ex_google]] =
     [(fcrdns_entry ''2001:4860:4860::8888'' ''dns.google'', True)]"
  by (simp add: gather_def ingest_def confirm_def cfg_fcrdns_def cfg_plain_def dns_v6_only_def
      no_such_host_def ex_google_def set_true_Nil set_true_Cons)

text \<open>
  C4 as stated fails: with \<open>-fcrdns\<close> set and \<open>-ipv6\<close> not set, a hostname with an AAAA
  answer and no other still gets its entry.
\<close>

theorem fcrdns_ipv6_needs_flag_counterexample:
  "\<not> flipv6 cfg_fcrdns \<and> flFcrdns cfg_fcrdns
   \<and> v6_direct cfg_fcrdns dns_v6_only (Hostname ex_google) ''2001:4860:4860::8888''
   \<and> fcrdns_entry ''2001:4860:4860::8888'' (Hostname ex_google)
        \<in> set (keys (gather cfg_fcrdns dns_v6_only [[ex_google]]))"
  by (simp add: gather_v6_only keys_def)
    (simp add: cfg_fcrdns_def cfg_plain_def v6_direct_def answered_def dns_v6_only_def ex_google_def)

text \<open>
  C4, as the code has it. The gatherer never reads \<open>-ipv6\<close>: the map is the same
  whatever the flag. With \<open>-fcrdns\<close>, every received record whose hostname has an AAAA
  answer yields the entry with source \<open>fcrdns\<close>, that address and the record's hostname.
\<close>

theorem fcrdns_ipv6_whatever_flag:
  "gather (cfg\<lparr>flipv6 := b\<rparr>) dns received = gather cfg dns received
   \<and> (flFcrdns cfg \<and> r \<in> set (concat received) \<and> v6_direct cfg dns (Hostname r) ip
        \<longrightarrow> fcrdns_entry ip (Hostname r) \<in> set (keys (gather cfg dns received)))"
  unfolding gather_flipv6 by (auto simp: set_keys_gather corroborated_def)

theorem fcrdns_ipv6_whatever_flag_witness:
  "flFcrdns cfg_fcrdns \<and> ex_google \<in> set (concat [[ex_google]])
   \<and> v6_direct cfg_fcrdns dns_v6_only (Hostname ex_google) ''2001:4860:4860::8888''
   \<and> fcrdns_entry ''2001:4860:4860::8888'' (Hostname ex_google)
        \<in> set (keys (gather cfg_fcrdns dns_v6_only [[ex_google]]))
   \<and> gather (cfg_fcrdns\<lparr>flipv6 := True\<rparr>) dns_v6_only [[ex_google]]
        = gather cfg_fcrdns dns_v6_only [[ex_google]]"
proof -
  have h: "flFcrdns cfg_fcrdns" "ex_google \<in> set (concat [[ex_google]])"
    "v6_direct cfg_fcrdns dns_v6_only (Hostname ex_google) ''2001:4860:4860::8888''"
    by (simp_all add: cfg_fcrdns_def cfg_plain_def v6_direct_def answered_def dns_v6_only_def
        ex_google_def)
  from fcrdns_ipv6_whatever_flag [where cfg = cfg_fcrdns and b = True and dns = dns_v6_only
      and received = "[[ex_google]]" and r = ex_google and ip = "''2001:4860:4860::8888''"] h
  show ?thesis by simp
qed

lemma confirm_flValidate: "confirm (cfg\<lparr>flValidate := v\<rparr>) = confirm cfg"
  by (intro ext) (simp add: confirm_def Let_def split: prod.splits)

lemma gather_fcrdns_flValidate:
  assumes "flFcrdns cfg"
  shows "gather (cfg\<lparr>flValidate := v\<rparr>) dns received = gather cfg dns received"
proof -
  have "ingest (cfg\<lparr>flValidate := v\<rparr>) dns = ingest cfg dns"
    using assms by (intro ext) (simp add: ingest_def confirm_flValidate)
  then show ?thesis by (simp add: gather_def)
qed

lemma bad_host_rejected: "\<not> domain_grammar ''bad_host!''"
  by (simp add: domain_grammar_def grammar_label_def lower_alnum_def)

lemma sub_example_accepted: "domain_grammar ''sub.example.com''"
  by (simp add: domain_grammar_def grammar_label_def lower_alnum_def)

text \<open>
  C5. The pattern matches exactly the strings of the grammar of domain names. Without
  \<open>-fcrdns\<close> and with \<open>-validate\<close>, the keys of the map are exactly the received records
  whose hostname is in the grammar. With \<open>-fcrdns\<close>, \<open>-validate\<close> has no effect on the
  map. The string \<open>bad_host!\<close> is outside the grammar, \<open>sub.example.com\<close> inside.
\<close>

theorem validation_filter:
  "(\<forall>s. regexp_Match domainReg s = (domain_grammar s, None))
   \<and> (\<not> flFcrdns cfg \<and> flValidate cfg \<longrightarrow>
        set (keys (gather cfg dns received)) =
          {r \<in> set (concat received). domain_grammar (Hostname r)})
   \<and> (flFcrdns cfg \<longrightarrow>
        gather (cfg\<lparr>flValidate := v\<rparr>) dns received = gather cfg dns received)
   \<and> \<not> domain_grammar ''bad_host!'' \<and> domain_grammar ''sub.example.com''"
  by (simp add: regexp_Match_domainReg set_keys_gather gather_fcrdns_flValidate
      bad_host_rejected sub_example_accepted)

lemma gather_validate:
  "gather cfg_validate dns_silent [[ex_bad_host, ex_sub]] = [(ex_sub, True)]"
  by (simp add: gather_def ingest_def accept_def regexp_Match_domainReg cfg_validate_def
      cfg_plain_def ex_bad_host_def ex_sub_def bad_host_rejected sub_example_accepted
      set_true_Nil)

theorem validation_filter_witness:
  "\<not> flFcrdns cfg_validate \<and> flValidate cfg_validate
   \<and> keys (gather cfg_validate dns_silent [[ex_bad_host, ex_sub]]) = [ex_sub]
   \<and> set (keys (gather cfg_validate dns_silent [[ex_bad_host, ex_sub]])) =
       {r \<in> set (concat [[ex_bad_host, ex_sub]]). domain_grammar (Hostname r)}
   \<and> flFcrdns cfg_fcrdns
   \<and> gather (cfg_fcrdns\<lparr>flValidate := True\<rparr>) dns_google [[ex_google, ex_lost]]
       = gather cfg_fcrdns dns_google [[ex_google, ex_lost]]"
proof -
  have a: "\<not> flFcrdns cfg_validate \<and> flValidate cfg_validate"
    by (simp add: cfg_validate_def cfg_plain_def)
  have b: "flFcrdns cfg_fcrdns"
    by (simp add: cfg_fcrdns_def)
  from validation_filter [where cfg = cfg_validate and dns = dns_silent
      and received = "[[ex_bad_host, ex_sub]]"] a
  have 1: "set (keys (gather cfg_validate dns_silent [[ex_bad_host, ex_sub]])) =
       {r \<in> set (concat [[ex_bad_host, ex_sub]]). domain_grammar (Hostname r)}"
    by blast
  from validation_filter [where cfg = cfg_fcrdns and dns = dns_google
      and received = "[[ex_google, ex_lost]]" and v = True] b
  have 2: "gather (cfg_fcrdns\<lparr>flValidate := True\<rparr>) dns_google [[ex_google, ex_lost]]
       = gather cfg_fcrdns dns_google [[ex_google, ex_lost]]"
    by blast
  have 3: "keys (gather cfg_validate dns_silent [[ex_bad_host, ex_sub]]) = [ex_sub]"
    by (simp add: gather_validate keys_def)
  from a b 1 2 3 show ?thesis
    by blast
qed

text \<open>
  C7. When \<open>-timeout\<close> is not given, the tasks receive 600, not 500, as their timeout in
  milliseconds.
\<close>

theorem default_timeout_passed:
  "timeout_for_calls default_flTimeout = 600 \<and> timeout_for_calls default_flTimeout \<noteq> 500"
  by (simp add: timeout_for_calls_def default_flTimeout_def)

text \<open>
  C8 as stated fails: a task that returns no error and no record makes the goroutine
  send the empty slice on \<open>res\<close>.
\<close>

theorem empty_success_not_forwarded_counterexample:
  "task_empty 0 = ((''reverse'', [], None), 1)
   \<and> worker_turn cfg_plain 0 task_empty 0 = (3, [Stderr working_backslash], Some [], 1)"
  by (simp add: worker_turn_def task_empty_def cfg_plain_def)

text \<open>
  C8, as the code has it. Whenever a task returns no error, the goroutine sends the
  slice it returned on \<open>res\<close>, empty or not; the gatherer leaves the map as it is when
  it receives an empty slice.
\<close>

theorem success_always_forwarded:
  assumes "def w = ((task, result, None), w')"
  shows "fst (snd (snd (worker_turn cfg c def w))) = Some result \<and> ingest cfg dns m [] = m"
  using assms by (simp add: worker_turn_def ingest_def split: prod.splits)

theorem success_always_forwarded_witness:
  "task_google 0 = ((''reverse'', [ex_google], None), 1)
   \<and> fst (snd (snd (worker_turn cfg_plain 0 task_google 0))) = Some [ex_google]
   \<and> task_empty 0 = ((''reverse'', [], None), 1)
   \<and> fst (snd (snd (worker_turn cfg_plain 0 task_empty 0))) = Some []
   \<and> ingest cfg_plain dns_silent [(ex_ns, True)] [] = [(ex_ns, True)]"
proof -
  have a: "task_google 0 = ((''reverse'', [ex_google], None), 1)"
    by (simp add: task_google_def)
  have b: "task_empty 0 = ((''reverse'', [], None), 1)"
    by (simp add: task_empty_def)
  from success_always_forwarded [where def = task_google and w = 0 and task = "''reverse''"
      and result = "[ex_google]" and w' = 1 and cfg = cfg_plain and c = 0 and dns = dns_silent
      and m = "[(ex_ns, True)]"]
    success_always_forwarded [where def = task_empty and w = 0 and task = "''reverse''"
      and result = "[]" and w' = 1 and cfg = cfg_plain and c = 0 and dns = dns_silent
      and m = "[(ex_ns, True)]"] a b
  show ?thesis by simp
qed

lemma worker_turn_sent:
  assumes "def w = ((task, result, err), w')"
  shows "fst (snd (snd (worker_turn cfg c def w))) = (case err of None \<Rightarrow> Some result | Some e \<Rightarrow> None)"
    and "snd (snd (snd (worker_turn cfg c def w))) = w'"
  using assms by (cases err; simp add: worker_turn_def split: prod.splits)+

lemma worker_run_outcomes:
  "fst (snd (worker_run cfg c defs w)) =
     map records_of (filter succeeded (fst (outcomes defs w)))
   \<and> snd (snd (worker_run cfg c defs w)) = snd (outcomes defs w)"
proof (induction defs arbitrary: c w)
  case Nil
  show ?case by simp
next
  case (Cons d ds)
  obtain task result err w' where d: "d w = ((task, result, err), w')"
    by (metis prod.exhaust)
  obtain c' out sent w1 where t: "worker_turn cfg c d w = (c', out, sent, w1)"
    by (metis prod.exhaust)
  from worker_turn_sent [where def = d and w = w and cfg = cfg and c = c, OF d] t
  have sent: "sent = (case err of None \<Rightarrow> Some result | Some e \<Rightarrow> None)" and w1: "w1 = w'"
    by simp_all
  obtain outs sents w2 where r: "worker_run cfg c' ds w' = (outs, sents, w2)"
    by (metis prod.exhaust)
  obtain os w3 where o: "outcomes ds w' = (os, w3)"
    by (metis prod.exhaust)
  show ?case
    using Cons.IH [of c' w'] d t sent w1 r o
    by (cases err) (simp_all add: succeeded_def records_of_def)
qed

section \<open>The shutdown protocol\<close>

lemma exited_subset: "exited ws \<subseteq> {..<length ws}"
  by (auto simp: exited_def)

lemma finite_exited: "finite (exited ws)"
  using exited_subset finite_subset by blast

lemma card_exited_le: "card (exited ws) \<le> length ws"
proof -
  have "card (exited ws) \<le> card {..<length ws}"
    by (rule card_mono) (simp_all add: exited_subset)
  then show ?thesis by simp
qed

lemma exited_full:
  assumes "length ws \<le> card (exited ws)"
  shows "exited ws = {..<length ws}"
proof (rule card_subset_eq)
  show "finite {..<length ws}" by simp
  show "exited ws \<subseteq> {..<length ws}" by (rule exited_subset)
  from assms card_exited_le [of ws] show "card (exited ws) = card {..<length ws}" by simp
qed

lemma exited_update_Exited:
  "k < length ws \<Longrightarrow> exited (ws[k := Exited]) = insert k (exited ws)"
  by (auto simp: exited_def nth_list_update)

lemma exited_update_other:
  "k < length ws \<Longrightarrow> ws ! k \<noteq> Exited \<Longrightarrow> p \<noteq> Exited \<Longrightarrow> exited (ws[k := p]) = exited ws"
  by (auto simp: exited_def nth_list_update)

lemma exited_replicate: "exited (replicate n (Ranging c)) = {}"
  by (auto simp: exited_def)

lemma not_exited: "k < length ws \<Longrightarrow> ws ! k \<noteq> Exited \<Longrightarrow> k \<notin> exited ws"
  by (simp add: exited_def)

lemma exited_all: "exited ws = {..<length ws} \<Longrightarrow> k < length ws \<Longrightarrow> ws ! k = Exited"
  by (auto simp: exited_def)

lemma Signalling_update:
  "k < length ws \<Longrightarrow> Signalling \<in> set (ws[k := p]) \<Longrightarrow> p = Signalling \<or> Signalling \<in> set ws"
  by (auto simp: in_set_conv_nth nth_list_update split: if_splits)

lemma inv_state_init: "inv_state cfg (init cfg defs w)"
  by (simp add: inv_state_def init_def exited_replicate)

lemma sorted_results_returns: "\<exists>ys. sorted_results to4 ks = Inr ys"
  using sort_Sort_spec [of to4 ks] by (auto simp: sorted_results_def)

lemma receive_signal_cases:
  assumes "receive_signal cfg p = Some p'"
  obtains i where "p = Waiting i" "i < flConcurrency cfg" "p' = Waiting (i + 1)"
  | "p = AwaitingGatherer" "p' = Reading"
  using assms by (cases p) (auto simp: receive_signal_def split: if_splits)

lemma inv_state_step:
  assumes inv: "inv_state cfg s" and st: "step cfg dns to4 s ev = Some s'"
  shows "inv_state cfg s'"
proof -
  from st have f: "fire cfg dns to4 s ev = Some s'"
    by (simp add: step_def split: if_splits)
  show ?thesis
  proof (cases ev)
    case Enqueue
    with f inv show ?thesis
      by (auto simp: inv_state_def split: producer_pc.splits list.splits if_splits)
  next
    case CloseTasks
    with f inv show ?thesis
      by (auto simp: inv_state_def split: producer_pc.splits list.splits if_splits)
  next
    case (Call k)
    with f obtain c def defs c' written sent w' where
      k: "k < length (workers s)" "workers s ! k = Ranging c" "tasks_buf s = def # defs"
        "worker_turn cfg c def (outside s) = (c', written, sent, w')"
      and s': "s' = s\<lparr>workers := (workers s)
                 [k := (case sent of None \<Rightarrow> Ranging c' | Some r \<Rightarrow> Sending c' r)],
               tasks_buf := defs, outside := w'\<rparr>"
      by (auto split: if_splits worker_pc.splits list.splits prod.splits)
    from inv k have none: "exited (workers s) = {}" "Signalling \<notin> set (workers s)"
      by (auto simp: inv_state_def)
    have ex: "exited ((workers s)[k := (case sent of None \<Rightarrow> Ranging c' | Some r \<Rightarrow> Sending c' r)])
        = exited (workers s)"
      using k by (intro exited_update_other) (auto split: option.splits)
    have sg: "Signalling \<notin> set ((workers s)[k := (case sent of None \<Rightarrow> Ranging c' | Some r \<Rightarrow> Sending c' r)])"
      using k none Signalling_update [of k "workers s"] by (auto split: option.splits)
    from inv k none show ?thesis
      unfolding s' inv_state_def by (simp add: ex sg) (cases "producer s"; auto)
  next
    case (Leave k)
    with f obtain c where
      k: "k < length (workers s)" "workers s ! k = Ranging c" "tasks_buf s = []" "tasks_closed s"
      and s': "s' = s\<lparr>workers := (workers s)[k := Signalling]\<rparr>"
      by (auto split: if_splits worker_pc.splits)
    have ex: "exited ((workers s)[k := Signalling]) = exited (workers s)"
      using k by (intro exited_update_other) auto
    have "\<not> past_waiting (producer s)"
    proof
      assume "past_waiting (producer s)"
      with inv have "exited (workers s) = {..<length (workers s)}"
        by (simp add: inv_state_def)
      from exited_all [OF this k(1)] k show False by simp
    qed
    with inv k show ?thesis
      unfolding s' inv_state_def by (auto simp: ex)
  next
    case (Send k)
    with f obtain c r where
      k: "k < length (workers s)" "workers s ! k = Sending c r" "\<not> res_closed s"
      and s': "s' = s\<lparr>workers := (workers s)[k := Ranging c], res_buf := res_buf s @ [r]\<rparr>"
      by (auto split: if_splits worker_pc.splits)
    have ex: "exited ((workers s)[k := Ranging c]) = exited (workers s)"
      using k by (intro exited_update_other) auto
    have sg: "Signalling \<in> set ((workers s)[k := Ranging c]) \<Longrightarrow> Signalling \<in> set (workers s)"
      using k Signalling_update [of k "workers s" "Ranging c"] by auto
    from inv k show ?thesis
      unfolding s' inv_state_def using sg by (auto simp: ex)
  next
    case (SendOnClosed k)
    with f obtain c r where
      k: "k < length (workers s)" "workers s ! k = Sending c r" "res_closed s"
      by (auto split: if_splits worker_pc.splits)
    from inv k have "exited (workers s) = {..<length (workers s)}"
      by (simp add: inv_state_def)
    from exited_all [OF this k(1)] k show ?thesis by simp
  next
    case (Signal who)
    show ?thesis
    proof (cases who)
      case (Worker k)
      with Signal f obtain p where
        k: "k < length (workers s)" "workers s ! k = Signalling"
        and p: "receive_signal cfg (producer s) = Some p"
        and s': "s' = s\<lparr>producer := p, workers := (workers s)[k := Exited]\<rparr>"
        by (auto split: if_splits option.splits)
      from k have nk: "k \<notin> exited (workers s)" by (simp add: not_exited)
      from p show ?thesis
      proof (cases rule: receive_signal_cases)
        case (1 i)
        from inv 1 have i: "i = int (card (exited (workers s)))"
          by (simp add: inv_state_def)
        have c: "card (insert k (exited (workers s))) = Suc (card (exited (workers s)))"
          using nk finite_exited by simp
        have sg: "Signalling \<in> set (workers s)"
          using k by (auto simp: in_set_conv_nth)
        from inv 1 sg have a: "length (workers s) = nat (flConcurrency cfg)" "\<not> crashed s"
          "tasks_closed s" "\<not> res_closed s" "tasks_buf s = []"
          "gatherer s \<noteq> Gathering \<longrightarrow> res_closed s \<and> res_buf s = []" "gatherer s \<noteq> GExited"
          by (auto simp: inv_state_def)
        have ex: "exited ((workers s)[k := Exited]) = insert k (exited (workers s))"
          using k by (simp add: exited_update_Exited)
        have "i + 1 = int (card (insert k (exited (workers s))))"
          using i c by simp
        with a show ?thesis
          unfolding s' 1 inv_state_def by (simp add: ex)
      next
        case 2
        with inv have "exited (workers s) = {..<length (workers s)}"
          by (simp add: inv_state_def)
        from exited_all [OF this k(1)] k show ?thesis by simp
      qed
    next
      case Gatherer
      with Signal f obtain p where
        g: "gatherer s = GSignalling"
        and p: "receive_signal cfg (producer s) = Some p"
        and s': "s' = s\<lparr>producer := p, gatherer := GExited\<rparr>"
        by (auto split: if_splits option.splits)
      from p show ?thesis
      proof (cases rule: receive_signal_cases)
        case (1 i)
        with inv g show ?thesis by (auto simp: inv_state_def)
      next
        case 2
        with inv g show ?thesis unfolding s' inv_state_def by simp
      qed
    qed
  next
    case CloseRes
    with f obtain i where
      p: "producer s = Waiting i" "\<not> i < flConcurrency cfg"
      and s': "s' = s\<lparr>producer := AwaitingGatherer, res_closed := True\<rparr>"
      by (auto split: producer_pc.splits if_splits)
    from inv p have "length (workers s) \<le> card (exited (workers s))"
      by (auto simp: inv_state_def)
    then have "exited (workers s) = {..<length (workers s)}"
      by (rule exited_full)
    with inv p show ?thesis
      unfolding s' inv_state_def by auto
  next
    case Ingest
    with f inv show ?thesis
      by (auto simp: inv_state_def split: gatherer_pc.splits list.splits)
  next
    case GLeave
    with f inv show ?thesis
      by (auto simp: inv_state_def split: gatherer_pc.splits if_splits)
  next
    case (ReadSet ks)
    from sorted_results_returns [of to4 ks] obtain ys where "sorted_results to4 ks = Inr ys" ..
    with ReadSet f have "producer s = Reading" "s' = s\<lparr>producer := Finished ys\<rparr>"
      by (simp_all split: producer_pc.splits if_splits)
    with inv show ?thesis
      by (simp add: inv_state_def)
  qed
qed

lemma signals_snoc: "signals (ks @ [k]) = signals ks @ [Signal (Worker k)]"
  by (simp add: signals_def)

lemma inv_trace_init: "inv_trace [] (init cfg defs w)"
  by (simp add: inv_trace_def init_def exited_replicate)

lemma inv_trace_same:
  assumes "inv_trace evs s" "producer s' = producer s" "exited (workers s') = exited (workers s)"
    "\<not> shutdown ev"
  shows "inv_trace (evs @ [ev]) s'"
  using assms by (simp add: inv_trace_def)

lemma inv_trace_step:
  assumes inv: "inv_state cfg s" and tr: "inv_trace evs s"
    and st: "step cfg dns to4 s ev = Some s'"
  shows "inv_trace (evs @ [ev]) s'"
proof -
  from st have f: "fire cfg dns to4 s ev = Some s'"
    by (simp add: step_def split: if_splits)
  from tr obtain ks where ks: "distinct ks" "set ks = exited (workers s)"
    "chain (producer s) ks (filter shutdown evs)"
    by (auto simp: inv_trace_def)
  show ?thesis
  proof (cases ev)
    case Enqueue
    with f obtain def defs where "producer s = Enqueueing (def # defs)"
      "s' = s\<lparr>producer := Enqueueing defs, tasks_buf := tasks_buf s @ [def]\<rparr>"
      by (auto split: producer_pc.splits list.splits if_splits)
    with ks Enqueue show ?thesis
      by (auto simp: inv_trace_def)
  next
    case CloseTasks
    with f have "producer s = Enqueueing []" "s' = s\<lparr>producer := Waiting 0, tasks_closed := True\<rparr>"
      by (auto split: producer_pc.splits list.splits if_splits)
    with ks CloseTasks show ?thesis
      by (auto simp: inv_trace_def signals_def)
  next
    case (Call k)
    with f obtain c def defs c' written sent w' where
      k: "k < length (workers s)" "workers s ! k = Ranging c" "tasks_buf s = def # defs"
        "worker_turn cfg c def (outside s) = (c', written, sent, w')"
      and s': "s' = s\<lparr>workers := (workers s)
                 [k := (case sent of None \<Rightarrow> Ranging c' | Some r \<Rightarrow> Sending c' r)],
               tasks_buf := defs, outside := w'\<rparr>"
      by (auto split: if_splits worker_pc.splits list.splits prod.splits)
    have "exited ((workers s)[k := (case sent of None \<Rightarrow> Ranging c' | Some r \<Rightarrow> Sending c' r)])
        = exited (workers s)"
      using k by (intro exited_update_other) (auto split: option.splits)
    with tr Call show ?thesis
      unfolding s' by (intro inv_trace_same) simp_all
  next
    case (Leave k)
    with f obtain c where
      k: "k < length (workers s)" "workers s ! k = Ranging c"
      and s': "s' = s\<lparr>workers := (workers s)[k := Signalling]\<rparr>"
      by (auto split: if_splits worker_pc.splits)
    have "exited ((workers s)[k := Signalling]) = exited (workers s)"
      using k by (intro exited_update_other) auto
    with tr Leave show ?thesis
      unfolding s' by (intro inv_trace_same) simp_all
  next
    case (Send k)
    with f obtain c r where
      k: "k < length (workers s)" "workers s ! k = Sending c r"
      and s': "s' = s\<lparr>workers := (workers s)[k := Ranging c], res_buf := res_buf s @ [r]\<rparr>"
      by (auto split: if_splits worker_pc.splits)
    have "exited ((workers s)[k := Ranging c]) = exited (workers s)"
      using k by (intro exited_update_other) auto
    with tr Send show ?thesis
      unfolding s' by (intro inv_trace_same) simp_all
  next
    case (SendOnClosed k)
    with f have "s' = s\<lparr>crashed := True\<rparr>"
      by (auto split: if_splits worker_pc.splits)
    with tr SendOnClosed show ?thesis
      by (intro inv_trace_same) simp_all
  next
    case (Signal who)
    show ?thesis
    proof (cases who)
      case (Worker k)
      with Signal f obtain p where
        k: "k < length (workers s)" "workers s ! k = Signalling"
        and p: "receive_signal cfg (producer s) = Some p"
        and s': "s' = s\<lparr>producer := p, workers := (workers s)[k := Exited]\<rparr>"
        by (auto split: if_splits option.splits)
      from k have nk: "k \<notin> exited (workers s)" by (simp add: not_exited)
      have ex: "exited ((workers s)[k := Exited]) = insert k (exited (workers s))"
        using k by (simp add: exited_update_Exited)
      from p show ?thesis
      proof (cases rule: receive_signal_cases)
        case (1 i)
        with ks have "filter shutdown evs = CloseTasks # signals ks" by simp
        then have "chain (Waiting (i + 1)) (ks @ [k]) (filter shutdown (evs @ [ev]))"
          using Signal Worker by (simp add: signals_snoc)
        moreover have "distinct (ks @ [k])" "set (ks @ [k]) = insert k (exited (workers s))"
          using ks nk by auto
        ultimately show ?thesis
          unfolding s' 1 inv_trace_def using ex by (intro exI [of _ "ks @ [k]"]) simp
      next
        case 2
        with inv have "exited (workers s) = {..<length (workers s)}"
          by (simp add: inv_state_def)
        from exited_all [OF this k(1)] k show ?thesis by simp
      qed
    next
      case Gatherer
      with Signal f obtain p where
        g: "gatherer s = GSignalling"
        and p: "receive_signal cfg (producer s) = Some p"
        and s': "s' = s\<lparr>producer := p, gatherer := GExited\<rparr>"
        by (auto split: if_splits option.splits)
      from p show ?thesis
      proof (cases rule: receive_signal_cases)
        case (1 i)
        with inv g show ?thesis by (auto simp: inv_state_def)
      next
        case 2
        with ks have "filter shutdown evs = CloseTasks # signals ks @ [CloseRes]" by simp
        then have "chain Reading ks (filter shutdown (evs @ [ev]))"
          using Signal Gatherer by simp
        with ks show ?thesis
          unfolding s' 2 inv_trace_def by (intro exI [of _ ks]) simp
      qed
    qed
  next
    case CloseRes
    with f obtain i where
      p: "producer s = Waiting i"
      and s': "s' = s\<lparr>producer := AwaitingGatherer, res_closed := True\<rparr>"
      by (auto split: producer_pc.splits if_splits)
    with ks have "filter shutdown evs = CloseTasks # signals ks" by simp
    then have "chain AwaitingGatherer ks (filter shutdown (evs @ [ev]))"
      using CloseRes by simp
    with ks show ?thesis
      unfolding s' inv_trace_def by (intro exI [of _ ks]) simp
  next
    case Ingest
    with f obtain result rest where
      "s' = s\<lparr>res_buf := rest, resMap := ingest cfg dns (resMap s) result\<rparr>"
      by (auto split: gatherer_pc.splits list.splits)
    with tr Ingest show ?thesis
      by (intro inv_trace_same) simp_all
  next
    case GLeave
    with f have "s' = s\<lparr>gatherer := GSignalling\<rparr>"
      by (auto split: gatherer_pc.splits if_splits)
    with tr GLeave show ?thesis
      by (intro inv_trace_same) simp_all
  next
    case (ReadSet order)
    from sorted_results_returns [of to4 order] obtain ys where "sorted_results to4 order = Inr ys" ..
    with ReadSet f have p: "producer s = Reading" and s': "s' = s\<lparr>producer := Finished ys\<rparr>"
      by (simp_all split: producer_pc.splits if_splits)
    with ks have "filter shutdown evs = CloseTasks # signals ks @ [CloseRes, Signal Gatherer]" by simp
    then have "chain (Finished ys) ks (filter shutdown (evs @ [ev]))"
      using ReadSet by simp
    with ks show ?thesis
      unfolding s' inv_trace_def by (intro exI [of _ ks]) simp
  qed
qed

lemma run_snoc:
  "run cfg dns to4 s (evs @ [ev]) =
     (case run cfg dns to4 s evs of None \<Rightarrow> None | Some s' \<Rightarrow> step cfg dns to4 s' ev)"
  by (induction evs arbitrary: s) (auto split: option.splits)

lemma run_append:
  "run cfg dns to4 s (evs @ evs') =
     (case run cfg dns to4 s evs of None \<Rightarrow> None | Some s' \<Rightarrow> run cfg dns to4 s' evs')"
  by (induction evs arbitrary: s) (auto split: option.splits)

lemma run_invariants:
  "run cfg dns to4 (init cfg defs w) evs = Some s \<Longrightarrow> inv_state cfg s \<and> inv_trace evs s"
proof (induction evs arbitrary: s rule: rev_induct)
  case Nil
  then have "s = init cfg defs w" by simp
  then show ?case by (simp add: inv_state_init inv_trace_init)
next
  case (snoc ev evs)
  from snoc.prems obtain s0 where s0: "run cfg dns to4 (init cfg defs w) evs = Some s0"
    and st: "step cfg dns to4 s0 ev = Some s"
    by (auto simp: run_snoc split: option.splits)
  from snoc.IH [OF s0] have "inv_state cfg s0" "inv_trace evs s0" by simp_all
  with st show ?case
    using inv_state_step inv_trace_step by blast
qed

lemma enabledI: "step cfg dns to4 s ev = Some s' \<Longrightarrow> enabled cfg dns to4 s"
  by (auto simp: enabled_def)

lemma ranges_over_keys: "ranges_over (keys m) m"
  by (simp add: ranges_over_def)

lemma gatherer_moves:
  assumes "\<not> crashed s" "gatherer s = Gathering" "res_buf s \<noteq> [] \<or> res_closed s"
  shows "enabled cfg dns to4 s"
proof (cases "res_buf s")
  case Nil
  with assms have "step cfg dns to4 s GLeave = Some (s\<lparr>gatherer := GSignalling\<rparr>)"
    by (simp add: step_def)
  then show ?thesis by (rule enabledI)
next
  case (Cons result rest)
  with assms have "step cfg dns to4 s Ingest
      = Some (s\<lparr>res_buf := rest, resMap := ingest cfg dns (resMap s) result\<rparr>)"
    by (simp add: step_def)
  then show ?thesis by (rule enabledI)
qed

lemma worker_moves:
  assumes nc: "\<not> crashed s" and k: "k < length (workers s)" "workers s ! k \<noteq> Exited"
    and open_res: "\<not> res_closed s" "gatherer s = Gathering"
    and tasks: "tasks_buf s \<noteq> [] \<or> tasks_closed s"
    and hears: "workers s ! k = Signalling \<Longrightarrow> receive_signal cfg (producer s) \<noteq> None"
    and len: "length (workers s) = nat (flConcurrency cfg)"
  shows "enabled cfg dns to4 s"
proof (cases "workers s ! k")
  case (Ranging c)
  show ?thesis
  proof (cases "tasks_buf s")
    case Nil
    with nc k Ranging tasks have "step cfg dns to4 s (Leave k)
        = Some (s\<lparr>workers := (workers s)[k := Signalling]\<rparr>)"
      by (simp add: step_def)
    then show ?thesis by (rule enabledI)
  next
    case (Cons def defs)
    obtain c' written sent w' where "worker_turn cfg c def (outside s) = (c', written, sent, w')"
      by (metis prod.exhaust)
    with nc k Ranging Cons have "\<exists>s'. step cfg dns to4 s (Call k) = Some s'"
      by (simp add: step_def)
    then show ?thesis by (auto intro: enabledI)
  qed
next
  case (Sending c r)
  show ?thesis
  proof (cases "int (length (res_buf s)) < flConcurrency cfg")
    case True
    with nc k Sending open_res have "\<exists>s'. step cfg dns to4 s (Send k) = Some s'"
      by (simp add: step_def)
    then show ?thesis by (auto intro: enabledI)
  next
    case False
    from k len have "0 < flConcurrency cfg" by simp
    with False have "res_buf s \<noteq> []" by auto
    with nc open_res show ?thesis by (intro gatherer_moves) simp_all
  qed
next
  case Signalling
  with hears obtain p where "receive_signal cfg (producer s) = Some p" by auto
  with nc k Signalling have "\<exists>s'. step cfg dns to4 s (Signal (Worker k)) = Some s'"
    by (simp add: step_def)
  then show ?thesis by (auto intro: enabledI)
next
  case Exited
  with k show ?thesis by simp
qed

lemma unexited_worker:
  assumes "card (exited ws) < length ws"
  obtains k where "k < length ws" "ws ! k \<noteq> Exited"
proof -
  have "exited ws \<noteq> {..<length ws}"
  proof
    assume "exited ws = {..<length ws}"
    then have "card (exited ws) = length ws" by simp
    with assms show False by simp
  qed
  with exited_subset [of ws] have "\<exists>k. k \<in> {..<length ws} \<and> k \<notin> exited ws"
    by blast
  then obtain k where "k < length ws" "k \<notin> exited ws"
    by auto
  then have "ws ! k \<noteq> Exited"
    by (simp add: exited_def)
  with \<open>k < length ws\<close> show thesis
    by (rule that)
qed

lemma inv_stateD:
  assumes "inv_state cfg s"
  shows "length (workers s) = nat (flConcurrency cfg)"
    and "\<not> crashed s"
    and "tasks_closed s = (\<not> enqueueing (producer s))"
    and "res_closed s = past_waiting (producer s)"
    and "exited (workers s) \<noteq> {} \<or> Signalling \<in> set (workers s)
           \<longrightarrow> tasks_closed s \<and> tasks_buf s = []"
    and "gatherer s \<noteq> Gathering \<longrightarrow> res_closed s \<and> res_buf s = []"
    and "(gatherer s = GExited) = past_signals (producer s)"
    and "past_waiting (producer s) \<longrightarrow> exited (workers s) = {..<length (workers s)}"
    and "\<forall>i. producer s = Waiting i \<longrightarrow> i = int (card (exited (workers s)))"
  using assms unfolding inv_state_def by blast+

lemma progress:
  assumes inv: "inv_state cfg s" and n: "1 \<le> flConcurrency cfg"
    and nf: "\<not> finished (producer s)"
  shows "enabled cfg dns to4 s"
proof -
  note nc = inv_stateD(2) [OF inv] and len = inv_stateD(1) [OF inv]
    and tc = inv_stateD(3) [OF inv] and rc = inv_stateD(4) [OF inv]
    and ws = inv_stateD(5) [OF inv, rule_format] and g = inv_stateD(6) [OF inv, rule_format]
    and ge = inv_stateD(7) [OF inv] and wi = inv_stateD(9) [OF inv, rule_format]
  show ?thesis
  proof (cases "producer s")
    case (Enqueueing defs)
    with rc g have open_res: "\<not> res_closed s" "gatherer s = Gathering" by auto
    show ?thesis
    proof (cases defs)
      case Nil
      with nc Enqueueing have "\<exists>s'. step cfg dns to4 s CloseTasks = Some s'"
        by (simp add: step_def)
      then show ?thesis by (auto intro: enabledI)
    next
      case (Cons def rest)
      show ?thesis
      proof (cases "int (length (tasks_buf s)) < flConcurrency cfg")
        case True
        with nc Enqueueing Cons have "\<exists>s'. step cfg dns to4 s Enqueue = Some s'"
          by (simp add: step_def)
        then show ?thesis by (auto intro: enabledI)
      next
        case False
        with n have full: "tasks_buf s \<noteq> []" by auto
        from n len have k: "0 < length (workers s)" by simp
        from tc Enqueueing ws have "exited (workers s) = {}" "Signalling \<notin> set (workers s)"
          by auto
        with k have "workers s ! 0 \<noteq> Exited" "workers s ! 0 \<noteq> Signalling"
          by (auto simp: exited_def in_set_conv_nth)
        with nc k open_res full len show ?thesis
          by (intro worker_moves [where k = 0]) simp_all
      qed
    qed
  next
    case (Waiting i)
    with rc g have open_res: "\<not> res_closed s" "gatherer s = Gathering" by auto
    from tc Waiting have closed: "tasks_closed s" by simp
    show ?thesis
    proof (cases "i < flConcurrency cfg")
      case False
      with nc Waiting have "\<exists>s'. step cfg dns to4 s CloseRes = Some s'"
        by (simp add: step_def)
      then show ?thesis by (auto intro: enabledI)
    next
      case True
      with wi [OF Waiting] len have "card (exited (workers s)) < length (workers s)"
        by simp
      then obtain k where k: "k < length (workers s)" "workers s ! k \<noteq> Exited"
        by (rule unexited_worker)
      from True Waiting have "receive_signal cfg (producer s) \<noteq> None"
        by (simp add: receive_signal_def)
      with nc k open_res closed len show ?thesis
        by (intro worker_moves [where k = k]) simp_all
    qed
  next
    case AwaitingGatherer
    with rc ge have r: "res_closed s" "gatherer s \<noteq> GExited" by auto
    show ?thesis
    proof (cases "gatherer s")
      case Gathering
      with nc r show ?thesis by (intro gatherer_moves) simp_all
    next
      case GSignalling
      with nc AwaitingGatherer have "\<exists>s'. step cfg dns to4 s (Signal Gatherer) = Some s'"
        by (simp add: step_def receive_signal_def)
      then show ?thesis by (auto intro: enabledI)
    next
      case GExited
      with r show ?thesis by simp
    qed
  next
    case Reading
    from sorted_results_returns [of to4 "keys (resMap s)"] obtain ys
      where "sorted_results to4 (keys (resMap s)) = Inr ys" ..
    with nc Reading have "\<exists>s'. step cfg dns to4 s (ReadSet (keys (resMap s))) = Some s'"
      by (simp add: step_def ranges_over_keys)
    then show ?thesis by (auto intro: enabledI)
  next
    case (Finished results)
    with nf show ?thesis by simp
  qed
qed

lemma worker_rank_update:
  assumes "k < length ws"
  shows "sum_list (map worker_rank (ws[k := p])) + worker_rank (ws ! k)
           = sum_list (map worker_rank ws) + worker_rank p"
  using assms
proof (induction ws arbitrary: k)
  case Nil
  then show ?case by simp
next
  case (Cons a ws)
  then show ?case by (cases k) (simp_all add: add.assoc add.left_commute)
qed

lemma rank_step:
  assumes st: "step cfg dns to4 s ev = Some s'"
  shows "rank cfg s' < rank cfg s"
proof -
  from st have nc: "\<not> crashed s" and f: "fire cfg dns to4 s ev = Some s'"
    by (simp_all add: step_def split: if_splits)
  show ?thesis
  proof (cases ev)
    case Enqueue
    with f nc show ?thesis
      by (auto simp: rank_def split: producer_pc.splits list.splits if_splits)
  next
    case CloseTasks
    with f nc show ?thesis
      by (auto simp: rank_def split: producer_pc.splits list.splits if_splits)
  next
    case (Call k)
    with f obtain c def defs c' written sent w' where
      k: "k < length (workers s)" "workers s ! k = Ranging c" "tasks_buf s = def # defs"
        "worker_turn cfg c def (outside s) = (c', written, sent, w')"
      and s': "s' = s\<lparr>workers := (workers s)
                 [k := (case sent of None \<Rightarrow> Ranging c' | Some r \<Rightarrow> Sending c' r)],
               tasks_buf := defs, outside := w'\<rparr>"
      by (auto split: if_splits worker_pc.splits list.splits prod.splits)
    from worker_rank_update [OF k(1), of "case sent of None \<Rightarrow> Ranging c' | Some r \<Rightarrow> Sending c' r"] k
    show ?thesis
      unfolding s' rank_def by (cases sent) simp_all
  next
    case (Leave k)
    with f obtain c where
      k: "k < length (workers s)" "workers s ! k = Ranging c"
      and s': "s' = s\<lparr>workers := (workers s)[k := Signalling]\<rparr>"
      by (auto split: if_splits worker_pc.splits)
    from worker_rank_update [OF k(1), of Signalling] k show ?thesis
      unfolding s' rank_def by simp
  next
    case (Send k)
    with f obtain c r where
      k: "k < length (workers s)" "workers s ! k = Sending c r"
      and s': "s' = s\<lparr>workers := (workers s)[k := Ranging c], res_buf := res_buf s @ [r]\<rparr>"
      by (auto split: if_splits worker_pc.splits)
    from worker_rank_update [OF k(1), of "Ranging c"] k show ?thesis
      unfolding s' rank_def by simp
  next
    case (SendOnClosed k)
    with f have "s' = s\<lparr>crashed := True\<rparr>"
      by (auto split: if_splits worker_pc.splits)
    with nc show ?thesis by (simp add: rank_def)
  next
    case (Signal who)
    show ?thesis
    proof (cases who)
      case (Worker k)
      with Signal f obtain p where
        k: "k < length (workers s)" "workers s ! k = Signalling"
        and p: "receive_signal cfg (producer s) = Some p"
        and s': "s' = s\<lparr>producer := p, workers := (workers s)[k := Exited]\<rparr>"
        by (auto split: if_splits option.splits)
      from p have "producer_rank cfg p < producer_rank cfg (producer s)"
        by (cases rule: receive_signal_cases) simp_all
      with worker_rank_update [OF k(1), of Exited] k show ?thesis
        unfolding s' rank_def by simp
    next
      case Gatherer
      with Signal f obtain p where
        g: "gatherer s = GSignalling"
        and p: "receive_signal cfg (producer s) = Some p"
        and s': "s' = s\<lparr>producer := p, gatherer := GExited\<rparr>"
        by (auto split: if_splits option.splits)
      from p have "producer_rank cfg p < producer_rank cfg (producer s)"
        by (cases rule: receive_signal_cases) simp_all
      with g show ?thesis
        unfolding s' rank_def by simp
    qed
  next
    case CloseRes
    with f nc show ?thesis
      by (auto simp: rank_def split: producer_pc.splits if_splits)
  next
    case Ingest
    with f nc show ?thesis
      by (auto simp: rank_def split: gatherer_pc.splits list.splits)
  next
    case GLeave
    with f nc show ?thesis
      by (auto simp: rank_def split: gatherer_pc.splits if_splits)
  next
    case (ReadSet order)
    from sorted_results_returns [of to4 order] obtain ys where "sorted_results to4 order = Inr ys" ..
    with ReadSet f have "producer s = Reading" "s' = s\<lparr>producer := Finished ys\<rparr>"
      by (simp_all split: producer_pc.splits if_splits)
    then show ?thesis by (simp add: rank_def)
  qed
qed

lemma run_length: "run cfg dns to4 s evs = Some s' \<Longrightarrow> length evs + rank cfg s' \<le> rank cfg s"
proof (induction evs arbitrary: s)
  case Nil
  then show ?case by simp
next
  case (Cons ev evs)
  from Cons.prems obtain s1 where s1: "step cfg dns to4 s ev = Some s1"
    and r: "run cfg dns to4 s1 evs = Some s'"
    by (auto split: option.splits)
  from Cons.IH [OF r] rank_step [OF s1] show ?case by simp
qed

lemma reaches_finish:
  assumes "inv_state cfg s" "1 \<le> flConcurrency cfg"
  shows "\<exists>evs s'. run cfg dns to4 s evs = Some s' \<and> finished (producer s')"
  using assms(1)
proof (induction "rank cfg s" arbitrary: s rule: less_induct)
  case less
  show ?case
  proof (cases "finished (producer s)")
    case True
    then have "run cfg dns to4 s [] = Some s \<and> finished (producer s)" by simp
    then show ?thesis by blast
  next
    case False
    from progress [OF less.prems assms(2) False, of dns to4] obtain ev s1
      where s1: "step cfg dns to4 s ev = Some s1"
      by (auto simp: enabled_def)
    from less.hyps [OF rank_step [OF s1] inv_state_step [OF less.prems s1]]
    obtain evs s' where "run cfg dns to4 s1 evs = Some s'" "finished (producer s')"
      by blast
    with s1 have "run cfg dns to4 s (ev # evs) = Some s' \<and> finished (producer s')"
      by simp
    then show ?thesis by blast
  qed
qed

text \<open>
  C2. In every run, whatever the number of goroutines in the pool and of tasks and however
  the goroutines take turns: the process never panics; the events of the shutdown have
  happened in the order close of \<^verbatim>\<open>tasks\<close>, one signal from each goroutine of the pool
  that has returned, close of \<^verbatim>\<open>res\<close>, the signal of the gatherer, the read of the set, as far
  as the main goroutine has got; once it is past its loop of receives every goroutine of
  the pool has returned, and once it has read the set the signals it received were exactly
  one from each goroutine of the pool and then one from the gatherer. With at least one
  goroutine in the pool, some event can happen as long as the main goroutine is not
  done, and the end can be reached; no run is longer than the rank of its first state.
\<close>

theorem shutdown_chain:
  assumes "run cfg dns to4 (init cfg defs w) evs = Some s"
  shows "\<not> crashed s
    \<and> (\<exists>ks. distinct ks \<and> set ks = exited (workers s)
             \<and> chain (producer s) ks (filter shutdown evs))
    \<and> (past_waiting (producer s) \<longrightarrow> exited (workers s) = {..<nat (flConcurrency cfg)})
    \<and> (gatherer s = GExited) = past_signals (producer s)
    \<and> (\<forall>results. producer s = Finished results \<longrightarrow>
          (\<exists>ks order. filter shutdown evs
               = CloseTasks # signals ks @ [CloseRes, Signal Gatherer, ReadSet order]
             \<and> distinct ks \<and> set ks = {..<nat (flConcurrency cfg)}))
    \<and> (1 \<le> flConcurrency cfg \<and> \<not> finished (producer s) \<longrightarrow>
          (\<exists>ev s'. step cfg dns to4 s ev = Some s'))
    \<and> (1 \<le> flConcurrency cfg \<longrightarrow>
          (\<exists>evs' s'. run cfg dns to4 s evs' = Some s' \<and> finished (producer s')))
    \<and> (\<forall>evs' s'. run cfg dns to4 s evs' = Some s' \<longrightarrow>
          length evs' + rank cfg s' \<le> rank cfg s)"
proof -
  from run_invariants [OF assms] have inv: "inv_state cfg s" and tr: "inv_trace evs s"
    by simp_all
  note len = inv_stateD(1) [OF inv]
  from tr obtain ks where ks: "distinct ks" "set ks = exited (workers s)"
    "chain (producer s) ks (filter shutdown evs)"
    by (auto simp: inv_trace_def)
  have all: "past_waiting (producer s) \<longrightarrow> exited (workers s) = {..<nat (flConcurrency cfg)}"
    using inv_stateD(8) [OF inv] len by simp
  have fin: "\<exists>ks order. filter shutdown evs
               = CloseTasks # signals ks @ [CloseRes, Signal Gatherer, ReadSet order]
             \<and> distinct ks \<and> set ks = {..<nat (flConcurrency cfg)}"
    if "producer s = Finished results" for results
    using that ks all by auto
  have prog: "\<exists>ev s'. step cfg dns to4 s ev = Some s'"
    if "1 \<le> flConcurrency cfg" "\<not> finished (producer s)"
    using progress [OF inv that, of dns to4] by (simp add: enabled_def)
  show ?thesis
    using inv_stateD(2) [OF inv] ks all inv_stateD(7) [OF inv] fin prog
      reaches_finish [OF inv, of dns to4] run_length [of cfg dns to4 s]
    by blast
qed

lemma sorted_ex_ns: "sorted_results dotted_quad [ex_ns] = Inr [ex_ns]"
  by code_simp

lemma run_two_probes:
  "run cfg_two dns_silent dotted_quad (init cfg_two [task_ns, task_ns] 0) two_probes
     = Some after_two_probes"
  by (simp add: two_probes_def after_two_probes_def init_def cfg_two_def cfg_plain_def step_def
      worker_turn_def task_ns_def ingest_def accept_def set_true_Nil set_true_Cons
      receive_signal_def ranges_over_def keys_def sorted_ex_ns numeral_2_eq_2)

theorem shutdown_chain_witness:
  "run cfg_two dns_silent dotted_quad (init cfg_two [task_ns, task_ns] 0) two_probes
     = Some after_two_probes
   \<and> producer after_two_probes = Finished [ex_ns]
   \<and> \<not> crashed after_two_probes
   \<and> filter shutdown two_probes
       = CloseTasks # signals [1, 0] @ [CloseRes, Signal Gatherer, ReadSet [ex_ns]]
   \<and> (\<exists>ks order. filter shutdown two_probes
          = CloseTasks # signals ks @ [CloseRes, Signal Gatherer, ReadSet order]
        \<and> distinct ks \<and> set ks = {..<nat (flConcurrency cfg_two)})
   \<and> exited (workers after_two_probes) = {..<nat (flConcurrency cfg_two)}
   \<and> gatherer after_two_probes = GExited"
proof -
  have p: "producer after_two_probes = Finished [ex_ns]"
    by (simp add: after_two_probes_def)
  have sh: "filter shutdown two_probes
       = CloseTasks # signals [1, 0] @ [CloseRes, Signal Gatherer, ReadSet [ex_ns]]"
    by (simp add: two_probes_def signals_def)
  from shutdown_chain [OF run_two_probes] p sh show ?thesis
    by (simp add: run_two_probes)
qed

lemma worker_turn_failed:
  assumes "def w = ((task, result, Some (Error msg)), w')"
  shows "worker_turn cfg c def w =
           ((if flDebug cfg then c else if c smod 2 = 0 then 3 else 2),
            (if flDebug cfg then [Log (task @ '': '' @ msg)]
             else [Stderr (if c smod 2 = 0 then working_backslash else working_slash)]),
            None, w')"
  using assms by (simp add: worker_turn_def)

text \<open>
  C9. A task that returns an error makes the goroutine send nothing on \<open>res\<close>; the
  error and the task's label are logged when \<open>-debug\<close> is set, and otherwise only the
  progress mark is written. Over the tasks a goroutine receives, the slices it sends are
  those of the tasks that returned no error, in order, and the outside state is the one
  left by calling each task once: a failure neither repeats a task nor skips the next.
  Among the goroutines together, the call of a failing task changes the counter of the
  goroutine that made it, the buffer of \<open>tasks\<close> and the outside state, and nothing else:
  the goroutine is back at its receive, and the others are where they were.
\<close>

theorem failed_task_forwards_nothing:
  "(def w = ((task, result, Some (Error msg)), w') \<longrightarrow>
      (\<exists>c'. worker_turn cfg c def w =
         (c',
          (if flDebug cfg then [Log (task @ '': '' @ msg)]
           else [Stderr (if c smod 2 = 0 then working_backslash else working_slash)]),
          None, w')))
   \<and> fst (snd (worker_run cfg c defs w)) =
       map records_of (filter succeeded (fst (outcomes defs w)))
   \<and> snd (snd (worker_run cfg c defs w)) = snd (outcomes defs w)
   \<and> (\<not> crashed s \<and> k < length (workers s) \<and> workers s ! k = Ranging c
        \<and> tasks_buf s = def # rest \<and> def (outside s) = ((task, result, Some (Error msg)), w')
        \<longrightarrow> (\<exists>c'. step cfg dns to4 s (Call k) =
               Some (s\<lparr>workers := (workers s)[k := Ranging c'], tasks_buf := rest,
                       outside := w'\<rparr>)))"
proof -
  have turn: "\<exists>c'. worker_turn cfg c def w =
         (c',
          (if flDebug cfg then [Log (task @ '': '' @ msg)]
           else [Stderr (if c smod 2 = 0 then working_backslash else working_slash)]),
          None, w')"
    if "def w = ((task, result, Some (Error msg)), w')"
    using worker_turn_failed [where def = "def" and w = w and cfg = cfg and c = c, OF that]
    by simp
  have call: "\<exists>c'. step cfg dns to4 s (Call k) =
               Some (s\<lparr>workers := (workers s)[k := Ranging c'], tasks_buf := rest,
                       outside := w'\<rparr>)"
    if "\<not> crashed s" "k < length (workers s)" "workers s ! k = Ranging c"
      "tasks_buf s = def # rest" "def (outside s) = ((task, result, Some (Error msg)), w')"
    using that worker_turn_failed [where def = "def" and w = "outside s" and cfg = cfg and c = c,
        OF that(5)]
    by (auto simp: step_def)
  from turn call worker_run_outcomes [of cfg c defs w] show ?thesis
    by blast
qed

theorem failed_task_forwards_nothing_witness:
  "task_failing 0 = ((''tls'', [], Some (Error ''i/o timeout'')), 1)
   \<and> worker_turn cfg_debug 0 task_failing 0 = (0, [Log ''tls: i/o timeout''], None, 1)
   \<and> worker_turn cfg_plain 0 task_failing 0 = (3, [Stderr working_backslash], None, 1)
   \<and> fst (snd (worker_run cfg_plain 0 [task_failing, task_google] 0)) = [[ex_google]]
   \<and> snd (snd (worker_run cfg_plain 0 [task_failing, task_google] 0)) = 2
   \<and> \<not> crashed before_failure \<and> 1 < length (workers before_failure)
   \<and> workers before_failure ! 1 = Ranging 0 \<and> tasks_buf before_failure = [task_failing]
   \<and> task_failing (outside before_failure) = ((''tls'', [], Some (Error ''i/o timeout'')), 1)
   \<and> step cfg_two dns_silent dotted_quad before_failure (Call 1) =
       Some (before_failure\<lparr>workers := [Ranging 0, Ranging 3], tasks_buf := [], outside := 1\<rparr>)"
proof -
  have a: "task_failing 0 = ((''tls'', [], Some (Error ''i/o timeout'')), 1)"
    by (simp add: task_failing_def)
  have o: "outcomes [task_failing, task_google] 0 =
      ([(''tls'', [], Some (Error ''i/o timeout'')), (''reverse'', [ex_google], None)], 2)"
    by (simp add: task_failing_def task_google_def)
  from failed_task_forwards_nothing [where def = task_failing and w = 0 and task = "''tls''"
      and result = "[]" and msg = "''i/o timeout''" and w' = 1 and cfg = cfg_plain and c = 0
      and defs = "[task_failing, task_google]"] a o
  have 1: "fst (snd (worker_run cfg_plain 0 [task_failing, task_google] 0)) = [[ex_google]]"
    and 2: "snd (snd (worker_run cfg_plain 0 [task_failing, task_google] 0)) = 2"
    by (simp_all add: succeeded_def records_of_def)
  have 3: "worker_turn cfg_debug 0 task_failing 0 = (0, [Log ''tls: i/o timeout''], None, 1)"
    "worker_turn cfg_plain 0 task_failing 0 = (3, [Stderr working_backslash], None, 1)"
    by (simp_all add: worker_turn_def task_failing_def cfg_debug_def cfg_plain_def)
  have 4: "\<not> crashed before_failure" "1 < length (workers before_failure)"
    "workers before_failure ! 1 = Ranging 0" "tasks_buf before_failure = [task_failing]"
    "task_failing (outside before_failure) = ((''tls'', [], Some (Error ''i/o timeout'')), 1)"
    by (simp_all add: before_failure_def task_failing_def)
  have 5: "step cfg_two dns_silent dotted_quad before_failure (Call 1) =
       Some (before_failure\<lparr>workers := [Ranging 0, Ranging 3], tasks_buf := [], outside := 1\<rparr>)"
    by (simp add: step_def before_failure_def worker_turn_def task_failing_def cfg_two_def
        cfg_plain_def)
  from a 1 2 3 4 5 show ?thesis by simp
qed

end
